theory Spec2Isabelle
  imports Main "HOL-Library.Word"
begin

unbundle bit_operations_syntax

section \<open>Karaka: GPS protocol engine and exposure synchronisation\<close>

text \<open>
  A shallow embedding of \<^verbatim>\<open>src/gps.c\<close> (packet synchroniser, Trimble and Magellan
  decoders, epoch correction, \<^verbatim>\<open>set_time\<close>, the serial watchdog) and of the PPS
  interrupt handler of \<^verbatim>\<open>src/main.c\<close>. The target is an 8-bit AVR: \<^verbatim>\<open>unsigned char\<close>
  is an 8-bit word, \<^verbatim>\<open>unsigned int\<close> a 16-bit word, and both wrap around.
\<close>

subsection \<open>Data model\<close>

type_synonym u8 = "8 word"
type_synonym u16 = "16 word"

text \<open>
  Modelled from the spec: the framing bytes \<^verbatim>\<open>DLE\<close> and \<^verbatim>\<open>ETX\<close> are macros of
  \<^verbatim>\<open>gps.h\<close>, which is not among the sources. The spec only calls them the framing byte
  and the terminator pair; the values are those of the frame that \<^verbatim>\<open>trimble_init\<close> in
  \<^verbatim>\<open>gps.c\<close> sends (\<^verbatim>\<open>0x10 ... 0x10 0x03\<close>).
\<close>

definition DLE :: u8 where "DLE = 0x10"
definition ETX :: u8 where "ETX = 0x03"

text \<open>
  The enumerations and the \<^verbatim>\<open>timestamp\<close> struct of \<^verbatim>\<open>gps.h\<close> and \<^verbatim>\<open>main.h\<close>, by the
  names the sources use. The year is an \<^verbatim>\<open>unsigned int\<close>, as the local variable that
  \<^verbatim>\<open>gps_process_buffer\<close> assigns to it; the flags \<^verbatim>\<open>locked\<close> and
  \<^verbatim>\<open>gps_magellan_locked\<close> only ever hold \<^verbatim>\<open>TRUE\<close> or \<^verbatim>\<open>FALSE\<close> and are booleans.
\<close>

datatype packet_type =
  UNKNOWN_PACKET | TRIMBLE_PACKET | MAGELLAN_TIME_PACKET | MAGELLAN_STATUS_PACKET

datatype gps_link = GPS_UNAVAILABLE | GPS_SYNCING | GPS_ACTIVE | GPS_TIME_GOOD

datatype countdown =
  COUNTDOWN_DISABLED | COUNTDOWN_SYNCING | COUNTDOWN_ENABLED | COUNTDOWN_TRIGGERED

record timestamp =
  hours :: u8
  minutes :: u8
  seconds :: u8
  day :: u8
  month :: u8
  year :: u16
  locked :: bool

text \<open>
  Calls into the other modules (debug channel, host link, camera trigger) are recorded as
  events, in program order. The four debug strings are the \<^verbatim>\<open>PROGMEM\<close> messages of
  \<^verbatim>\<open>gps.c\<close>.
\<close>

datatype debug_msg =
  gps_msg_missed_pps | gps_msg_lost_serial | gps_msg_unknown_mgl_packet | gps_msg_bad_packet

datatype event =
  Debug_string debug_msg
  | Debug_skipped_bytes u8
  | Debug_checksum_failed u8 u8
  | Debug_raw "u8 list"
  | Call_trigger_countdown
  | Call_trigger_download
  | Send_downloadtimestamp
  | Send_timestamp

text \<open>
  The variables with external linkage and the timer register. The exposure counters are
  declared in \<^verbatim>\<open>main.h\<close>, which is not among the sources: their width is the
  parameter \<open>'w\<close>.
\<close>

record (overloaded) 'w globals =
  gps_state :: gps_link
  gps_last_timestamp :: timestamp
  gps_last_synctime :: timestamp
  gps_record_synctime :: bool
  countdown_mode :: countdown
  exposure_syncing :: bool
  exposure_count :: "'w word"
  exposure_total :: "'w word"
  TCNT1 :: u16

text \<open>
  The file-static variables of \<^verbatim>\<open>gps.c\<close>. The 256-byte ring buffer is indexed by an
  8-bit cursor, so it is a total function on \<open>u8\<close>; the packet accumulator is indexed by
  the value of \<^verbatim>\<open>gps_packet_length\<close>. The C array has 32 entries and the decoders empty
  it at 21, 13 or 16 bytes; a store beyond the array is not modelled.
\<close>

record statics =
  gps_magellan_length :: u8
  gps_magellan_locked :: bool
  gps_input_buffer :: "u8 \<Rightarrow> u8"
  gps_input_read :: u8
  gps_input_write :: u8
  gps_packet_type :: packet_type
  gps_packet_length :: u8
  gps_packet :: "nat \<Rightarrow> u8"
  bytes_to_sync :: u8

definition statics_init :: statics where
  "statics_init =
     \<lparr>gps_magellan_length = 0, gps_magellan_locked = False,
      gps_input_buffer = (\<lambda>_. 0), gps_input_read = 0, gps_input_write = 0,
      gps_packet_type = UNKNOWN_PACKET, gps_packet_length = 0,
      gps_packet = (\<lambda>_. 0), bytes_to_sync = 0\<rparr>"

subsection \<open>Interrupt handlers of \<^verbatim>\<open>gps.c\<close>\<close>

definition TIMER1_OVF_vect :: "'w globals \<Rightarrow> event list \<times> 'w globals" where
  "TIMER1_OVF_vect g =
     ([Debug_string gps_msg_lost_serial], g\<lparr>gps_state := GPS_UNAVAILABLE\<rparr>)"

definition USART1_RX_vect :: "u8 \<Rightarrow> 'w globals \<times> statics \<Rightarrow> 'w globals \<times> statics" where
  "USART1_RX_vect UDR1 = (\<lambda>(g, p).
     let g1 = g\<lparr>TCNT1 := 0x0BDB\<rparr>;
         g2 = (if gps_state g1 = GPS_UNAVAILABLE then g1\<lparr>gps_state := GPS_SYNCING\<rparr> else g1)
     in (g2, p\<lparr>gps_input_buffer := (gps_input_buffer p)(gps_input_write p := UDR1),
              gps_input_write := gps_input_write p + 1\<rparr>))"

subsection \<open>The PPS interrupt handler of \<^verbatim>\<open>main.c\<close>\<close>

definition SIG_INTERRUPT0 :: "'w::len globals \<Rightarrow> event list \<times> 'w globals" where
  "SIG_INTERRUPT0 g =
     (if gps_state g = GPS_TIME_GOOD \<and> \<not> exposure_syncing g then
        (let g1 = g\<lparr>exposure_count := exposure_count g - 1\<rparr> in
         if exposure_count g1 = 0 then
           ([Call_trigger_download],
            g1\<lparr>exposure_count := exposure_total g1, gps_record_synctime := True\<rparr>)
         else ([], g1))
      else ([], g))"

text \<open>A run of PPS edges with nothing in between: the events of all edges, in order.\<close>

fun pps_edges :: "nat \<Rightarrow> 'w::len globals \<Rightarrow> event list \<times> 'w globals" where
  "pps_edges 0 g = ([], g)"
| "pps_edges (Suc n) g =
     (case SIG_INTERRUPT0 g of (ev, g1) \<Rightarrow>
        (case pps_edges n g1 of (evs, g2) \<Rightarrow> (ev @ evs, g2)))"

subsection \<open>\<^verbatim>\<open>set_time\<close>\<close>

text \<open>
  \<^verbatim>\<open>trigger_countdown\<close> is defined outside the sources. It cannot reach the file-static
  variables of \<^verbatim>\<open>gps.c\<close>, so it is a parameter that transforms the globals; the call
  itself is recorded as an event. The modulus is only evaluated in syncing mode (C's
  short-circuit \<^verbatim>\<open>&&\<close>); with \<^verbatim>\<open>exposure_total = 0\<close> C leaves it undefined, here it is
  HOL's \<open>mod\<close>.
\<close>

definition set_time ::
  "('w::len globals \<Rightarrow> 'w globals) \<Rightarrow> timestamp \<Rightarrow> 'w globals \<Rightarrow> event list \<times> 'w globals" where
  "set_time trigger_countdown t g =
     (let (ev1, g1) =
            (if countdown_mode g = COUNTDOWN_TRIGGERED then
               ([], g\<lparr>countdown_mode := COUNTDOWN_ENABLED\<rparr>)
             else if countdown_mode g = COUNTDOWN_ENABLED then
               ([Call_trigger_countdown, Debug_string gps_msg_missed_pps], trigger_countdown g)
             else ([], g));
          g2 = g1\<lparr>gps_last_timestamp := t, gps_state := GPS_ACTIVE\<rparr>;
          g3 = (if countdown_mode g2 = COUNTDOWN_SYNCING
                   \<and> unat (seconds (gps_last_timestamp g2)) mod unat (exposure_total g2) = 0
                then g2\<lparr>countdown_mode := COUNTDOWN_ENABLED\<rparr> else g2)
      in if gps_record_synctime g3 then
           (ev1 @ [Send_downloadtimestamp, Send_timestamp],
            g3\<lparr>gps_last_synctime := gps_last_timestamp g3, gps_record_synctime := False\<rparr>)
         else (ev1 @ [Send_timestamp], g3))"

subsection \<open>Leap years and the epoch correction\<close>

definition is_leap_year :: "u16 \<Rightarrow> bool" where
  "is_leap_year y =
     (if y mod 4 \<noteq> 0 then False
      else if y mod 100 \<noteq> 0 then True
      else (if y mod 400 \<noteq> 0 then False else True))"

text \<open>
  The static table \<^verbatim>\<open>days[13]\<close>: twelve initialisers, so the thirteenth entry is zero;
  entry 1 is rewritten at each year the loop enters and is the argument \<open>feb\<close>. The index
  \<^verbatim>\<open>month-1\<close> is computed in \<^verbatim>\<open>int\<close>; outside 0..12 the read is out of bounds and the
  model returns \<open>None\<close>.
\<close>

definition days :: "u8 \<Rightarrow> int \<Rightarrow> u8 option" where
  "days feb i =
     (if i < 0 \<or> 13 \<le> i then None
      else if i = 1 then Some feb
      else Some ([31, 28, 31, 30, 31, 30, 31, 31, 30, 31, 30, 31, 0] ! nat i))"

definition feb_days :: "u16 \<Rightarrow> u8" where
  "feb_days y = (if is_leap_year y then 29 else 28)"

text \<open>
  The \<^verbatim>\<open>while\<close> loop of the correction. It need not terminate (a day above 31 never
  satisfies the exit test), so it is a partial function: \<open>None\<close> is a run that does not
  return, or one that reads outside the table.
\<close>

partial_function (option) correction_loop ::
  "u8 \<Rightarrow> u8 \<Rightarrow> u8 \<Rightarrow> u16 \<Rightarrow> u8 \<Rightarrow> (u8 \<times> u8 \<times> u16) option" where
  [code]: "correction_loop d correction m y feb =
     Option.bind (days feb (int (unat m) - 1)) (\<lambda>dm.
       if unat d + unat correction > unat dm then
         (let m1 = m + 1;
              m2 = (if unat m1 > 12 then 1 else m1);
              y2 = (if unat m1 > 12 then y + 1 else y);
              feb2 = (if unat m1 > 12 then feb_days (y + 1) else feb)
          in Option.bind (days feb2 (int (unat m2) - 1)) (\<lambda>dn.
               correction_loop d (correction - dn) m2 y2 feb2))
       else Some (d + correction, m, y))"

definition raw_year :: "u8 \<Rightarrow> u8 \<Rightarrow> u16" where
  "raw_year hi lo = (push_bit 8 (ucast hi) AND 0xFF00) OR (ucast lo AND 0x00FF)"

definition epoch_correction :: "u8 \<Rightarrow> u8 \<Rightarrow> u16 \<Rightarrow> (u8 \<times> u8 \<times> u16) option" where
  "epoch_correction d m y0 =
     (let y = y0 + 19 in correction_loop d 229 m y (feb_days y))"

subsection \<open>\<^verbatim>\<open>gps_process_buffer\<close>: the packet synchroniser\<close>

text \<open>
  The first \<^verbatim>\<open>for\<close> loop. \<^verbatim>\<open>continue\<close> and the normal end of the body both run the
  increments of the cursor and of \<^verbatim>\<open>bytes_to_sync\<close>; \<^verbatim>\<open>break\<close> does not. The events
  logged so far are the first component of the loop state.
\<close>

definition magellan_preamble :: "statics \<Rightarrow> bool" where
  "magellan_preamble p =
     (gps_input_buffer p (gps_input_read p - 1) = 0x24
      \<and> gps_input_buffer p (gps_input_read p - 2) = 0x24
      \<and> gps_input_buffer p (gps_input_read p - 3) = 0x0A)"

definition trimble_preamble :: "statics \<Rightarrow> bool" where
  "trimble_preamble p =
     (gps_input_buffer p (gps_input_read p) = 0xAB
      \<and> gps_input_buffer p (gps_input_read p - 1) = 0x8F
      \<and> gps_input_buffer p (gps_input_read p - 2) = DLE
      \<and> gps_input_buffer p (gps_input_read p - 3) = ETX
      \<and> gps_input_buffer p (gps_input_read p - 4) = DLE)"

definition magellan_synced :: "packet_type \<Rightarrow> u8 \<Rightarrow> event list \<times> statics \<Rightarrow> event list \<times> statics" where
  "magellan_synced ty n = (\<lambda>(ev, p).
     (ev @ (if 3 < bytes_to_sync p then [Debug_skipped_bytes (bytes_to_sync p)] else []),
      p\<lparr>gps_packet_type := ty, gps_magellan_length := n, bytes_to_sync := 0,
        gps_input_read := gps_input_read p - 2\<rparr>))"

definition sync_next :: "statics \<Rightarrow> statics" where
  "sync_next p =
     p\<lparr>gps_input_read := gps_input_read p + 1, bytes_to_sync := bytes_to_sync p + 1\<rparr>"

function sync_loop :: "u8 \<Rightarrow> event list \<times> statics \<Rightarrow> event list \<times> statics" where
  "sync_loop temp_write (ev, p) =
     (if gps_packet_type p = UNKNOWN_PACKET \<and> gps_input_read p \<noteq> temp_write then
        (if magellan_preamble p then
           (if gps_input_buffer p (gps_input_read p) = 0x41 then
              magellan_synced MAGELLAN_TIME_PACKET 13 (ev, p)
            else if gps_input_buffer p (gps_input_read p) = 0x48 then
              magellan_synced MAGELLAN_STATUS_PACKET 16 (ev, p)
            else
              sync_loop temp_write (ev @ [Debug_string gps_msg_unknown_mgl_packet], sync_next p))
         else if trimble_preamble p then
           (ev, p\<lparr>gps_packet_type := TRIMBLE_PACKET, gps_input_read := gps_input_read p - 2\<rparr>)
         else sync_loop temp_write (ev, sync_next p))
      else (ev, p))"
  by pat_completeness auto

subsection \<open>The Trimble decoder\<close>

definition store_byte :: "statics \<Rightarrow> statics" where
  "store_byte p =
     p\<lparr>gps_packet := (gps_packet p)
          (unat (gps_packet_length p) := gps_input_buffer p (gps_input_read p)),
       gps_packet_length := gps_packet_length p + 1\<rparr>"

definition reset_packet :: "statics \<Rightarrow> statics" where
  "reset_packet p = p\<lparr>gps_packet_type := UNKNOWN_PACKET, gps_packet_length := 0\<rparr>"

definition packet_bytes :: "statics \<Rightarrow> u8 list" where
  "packet_bytes p = map (gps_packet p) [0..<unat (gps_packet_length p)]"

definition trimble_timestamp :: "(nat \<Rightarrow> u8) \<Rightarrow> timestamp" where
  "trimble_timestamp pkt =
     \<lparr>hours = pkt 14, minutes = pkt 13, seconds = pkt 12, day = pkt 15, month = pkt 16,
      year = raw_year (pkt 17) (pkt 18), locked = (pkt 11 = 0x03)\<rparr>"

text \<open>The body of \<^verbatim>\<open>if (gps_packet_length == 21)\<close>; it returns \<^verbatim>\<open>TRUE\<close> on both paths.\<close>

definition trimble_packet_end ::
  "('w::len globals \<Rightarrow> 'w globals) \<Rightarrow> 'w globals \<times> statics
     \<Rightarrow> bool \<times> event list \<times> 'w globals \<times> statics" where
  "trimble_packet_end trigger_countdown = (\<lambda>(g, p).
     if gps_packet p 20 = ETX \<and> gps_packet p 19 = DLE then
       (case set_time trigger_countdown (trimble_timestamp (gps_packet p)) g of
          (ev, g1) \<Rightarrow> (True, ev, g1, reset_packet p))
     else
       (True, [Debug_string gps_msg_bad_packet, Debug_raw (packet_bytes p)], g, reset_packet p))"

text \<open>The padding test at the head of the loop body.\<close>

definition skip_padding :: "statics \<Rightarrow> statics" where
  "skip_padding p =
     (if gps_input_buffer p (gps_input_read p) = DLE
         \<and> gps_input_buffer p (gps_input_read p - 1) = DLE
      then p\<lparr>gps_input_read := gps_input_read p + 1\<rparr> else p)"

function trimble_loop ::
  "('w::len globals \<Rightarrow> 'w globals) \<Rightarrow> u8 \<Rightarrow> 'w globals \<times> statics
     \<Rightarrow> bool \<times> event list \<times> 'w globals \<times> statics" where
  "trimble_loop trigger_countdown temp_write (g, p) =
     (if gps_input_read p \<noteq> temp_write then
        (let p1 = skip_padding p in
         if gps_input_read p1 = temp_write then (False, [], g, p1)
         else
           (let p2 = store_byte p1 in
            if gps_packet_length p2 = 21 then trimble_packet_end trigger_countdown (g, p2)
            else trimble_loop trigger_countdown temp_write
                   (g, p2\<lparr>gps_input_read := gps_input_read p2 + 1\<rparr>)))
      else (False, [], g, p))"
  by pat_completeness auto

subsection \<open>The Magellan decoder\<close>

text \<open>
  The checksum loop: \<^verbatim>\<open>csm\<close> starts as \<^verbatim>\<open>gps_packet[2]\<close> and takes in the bytes at
  \<^verbatim>\<open>3 .. gps_packet_length-3\<close>.
\<close>

definition magellan_checksum :: "(nat \<Rightarrow> u8) \<Rightarrow> nat \<Rightarrow> u8" where
  "magellan_checksum pkt n = fold (\<lambda>i csm. csm XOR pkt i) [3..<n - 2] (pkt 2)"

text \<open>
  The two tests a completed sentence of \<open>n\<close> bytes has to pass before it is decoded: the
  final byte is the line feed, and the byte before it equals the computed checksum.
\<close>

definition magellan_valid :: "(nat \<Rightarrow> u8) \<Rightarrow> nat \<Rightarrow> bool" where
  "magellan_valid pkt n = (pkt (n - 1) = 0x0A \<and> magellan_checksum pkt n = pkt (n - 2))"

definition magellan_timestamp :: "(nat \<Rightarrow> u8) \<Rightarrow> u8 \<times> u8 \<times> u16 \<Rightarrow> bool \<Rightarrow> timestamp" where
  "magellan_timestamp pkt = (\<lambda>(d, m, y) l.
     \<lparr>hours = pkt 4, minutes = pkt 5, seconds = pkt 6, day = d, month = m, year = y,
      locked = l\<rparr>)"

text \<open>
  The body of \<^verbatim>\<open>if (gps_packet_length == gps_magellan_length)\<close>. The result is \<open>None\<close>
  when the epoch correction does not return.
\<close>

definition magellan_packet_end ::
  "('w::len globals \<Rightarrow> 'w globals) \<Rightarrow> 'w globals \<times> statics
     \<Rightarrow> (bool \<times> event list \<times> 'w globals \<times> statics) option" where
  "magellan_packet_end trigger_countdown = (\<lambda>(g, p).
     let n = unat (gps_packet_length p); pkt = gps_packet p in
     if pkt (n - 1) = 0x0A then
       (let csm = magellan_checksum pkt n in
        if csm = pkt (n - 2) then
          (if gps_packet_type p = MAGELLAN_TIME_PACKET then
             Option.bind (epoch_correction (pkt 7) (pkt 8) (raw_year (pkt 9) (pkt 10)))
               (\<lambda>date.
                  case set_time trigger_countdown
                         (magellan_timestamp pkt date (gps_magellan_locked p)) g of
                    (ev, g1) \<Rightarrow> Some (True, ev, g1, reset_packet p))
           else if gps_packet_type p = MAGELLAN_STATUS_PACKET then
             (if gps_magellan_locked p \<noteq> (pkt 13 = 6) then
                Some (True, [], g, reset_packet (p\<lparr>gps_magellan_locked := (pkt 13 = 6)\<rparr>))
              else Some (False, [], g, reset_packet p))
           else
             Some (False, [Debug_string gps_msg_bad_packet, Debug_raw (packet_bytes p)], g,
                   reset_packet p))
        else
          Some (False, [Debug_checksum_failed csm (pkt (n - 2)), Debug_raw (packet_bytes p)], g,
                reset_packet p))
     else
       Some (False, [Debug_string gps_msg_bad_packet, Debug_raw (packet_bytes p)], g,
             reset_packet p))"

function magellan_loop ::
  "('w::len globals \<Rightarrow> 'w globals) \<Rightarrow> u8 \<Rightarrow> 'w globals \<times> statics
     \<Rightarrow> (bool \<times> event list \<times> 'w globals \<times> statics) option" where
  "magellan_loop trigger_countdown temp_write (g, p) =
     (if gps_input_read p \<noteq> temp_write then
        (let p1 = store_byte p in
         if gps_packet_length p1 = gps_magellan_length p1 then
           magellan_packet_end trigger_countdown (g, p1)
         else magellan_loop trigger_countdown temp_write
                (g, p1\<lparr>gps_input_read := gps_input_read p1 + 1\<rparr>))
      else Some (False, [], g, p))"
  by pat_completeness auto

subsection \<open>\<^verbatim>\<open>gps_process_buffer\<close>\<close>

text \<open>
  The result is the return value, the events of the call and the new state. After either
  decoder loop ends without a completed packet, the \<^verbatim>\<open>switch\<close> falls out to
  \<^verbatim>\<open>return FALSE\<close>.
\<close>

definition gps_process_buffer ::
  "('w::len globals \<Rightarrow> 'w globals) \<Rightarrow> 'w globals \<times> statics
     \<Rightarrow> (bool \<times> event list \<times> 'w globals \<times> statics) option" where
  "gps_process_buffer trigger_countdown = (\<lambda>(g, p).
     let temp_write = gps_input_write p in
     if gps_input_read p = temp_write then Some (False, [], g, p)
     else
       (case sync_loop temp_write ([], p) of (ev, p1) \<Rightarrow>
          (case gps_packet_type p1 of
             UNKNOWN_PACKET \<Rightarrow> Some (False, ev, g, p1)
           | TRIMBLE_PACKET \<Rightarrow>
               (case trimble_loop trigger_countdown temp_write (g, p1) of
                  (r, ev2, g2, p2) \<Rightarrow> Some (r, ev @ ev2, g2, p2))
           | _ \<Rightarrow>
               map_option (\<lambda>(r, ev2, g2, p2). (r, ev @ ev2, g2, p2))
                 (magellan_loop trigger_countdown temp_write (g, p1)))))"

text \<open>
  The state after \<^verbatim>\<open>main\<close> has initialised the globals and called \<^verbatim>\<open>gps_init\<close>; the
  timestamps have static storage and start as zero. \<^verbatim>\<open>countdown_mode\<close> is initialised
  outside the sources; by the spec the controller is disabled while the exposure length is
  zero.
\<close>

definition timestamp_zero :: timestamp where
  "timestamp_zero =
     \<lparr>hours = 0, minutes = 0, seconds = 0, day = 0, month = 0, year = 0, locked = False\<rparr>"

definition globals_init :: "'w::len globals" where
  "globals_init =
     \<lparr>gps_state = GPS_UNAVAILABLE, gps_last_timestamp = timestamp_zero,
      gps_last_synctime = timestamp_zero, gps_record_synctime = False,
      countdown_mode = COUNTDOWN_DISABLED, exposure_syncing = True,
      exposure_count = 0, exposure_total = 0, TCNT1 = 0x0BDB\<rparr>"

text \<open>The serial line delivers bytes one receive interrupt at a time.\<close>

definition receive :: "u8 list \<Rightarrow> 'w globals \<times> statics \<Rightarrow> 'w globals \<times> statics" where
  "receive bs s = fold USART1_RX_vect bs s"

text \<open>The unread span of the ring buffer, from the read cursor up to a write cursor.\<close>

definition unread :: "statics \<Rightarrow> u8 \<Rightarrow> u8 list" where
  "unread p w =
     map (\<lambda>i. gps_input_buffer p (gps_input_read p + of_nat i))
       [0..<unat (w - gps_input_read p)]"

subsection \<open>Reference notions the claims compare the code with\<close>

text \<open>
  Escape-doubling as the spec words it: the sender doubles every framing byte of the
  payload; a frame is the start marker and packet type, the doubled payload, and the
  terminator pair.
\<close>

definition stuff :: "u8 list \<Rightarrow> u8 list" where
  "stuff bs = concat (map (\<lambda>b. if b = DLE then [DLE, DLE] else [b]) bs)"

definition trimble_frame :: "u8 list \<Rightarrow> u8 list" where
  "trimble_frame payload = [DLE, 0x8F, 0xAB] @ stuff payload @ [DLE, ETX]"

text \<open>
  What one run of the Trimble loop stores from a list of unread bytes; the flag says
  whether the byte before the cursor is a framing byte.
\<close>

fun destuff :: "bool \<Rightarrow> u8 list \<Rightarrow> u8 list" where
  "destuff d [] = []"
| "destuff d (x # xs) =
     (if x = DLE \<and> d then (case xs of [] \<Rightarrow> [] | y # ys \<Rightarrow> y # destuff (y = DLE) ys)
      else x # destuff (x = DLE) xs)"

text \<open>The accumulator after the bytes \<open>bs\<close> have been stored from index \<open>k\<close> on.\<close>

definition fill :: "(nat \<Rightarrow> u8) \<Rightarrow> nat \<Rightarrow> u8 list \<Rightarrow> nat \<Rightarrow> u8" where
  "fill pkt k bs i = (if k \<le> i \<and> i < k + length bs then bs ! (i - k) else pkt i)"

text \<open>
  A Magellan sentence is due when the accumulator is still short of the sentence length and
  the unread bytes suffice to complete it. \<open>pending_sentence\<close> is the accumulator once the
  missing bytes have been stored from the unread span.
\<close>

definition sentence_due :: "statics \<Rightarrow> u8 \<Rightarrow> bool" where
  "sentence_due p w =
     (unat (gps_packet_length p) < unat (gps_magellan_length p)
      \<and> unat (gps_magellan_length p) - unat (gps_packet_length p) \<le> length (unread p w))"

definition pending_sentence :: "statics \<Rightarrow> u8 \<Rightarrow> nat \<Rightarrow> u8" where
  "pending_sentence p w =
     fill (gps_packet p) (unat (gps_packet_length p))
       (take (unat (gps_magellan_length p) - unat (gps_packet_length p)) (unread p w))"

text \<open>
  The spec's "accepted status sentence", read off the state in which the routine is called:
  the call is about to complete a status sentence that passes the line-feed and checksum
  tests; the value is the lock state the sentence encodes. \<open>accumulator_ok\<close> says that an
  empty accumulator has length zero and that a Magellan sentence under way is still short of
  its length.
\<close>

definition accepted_status :: "statics \<Rightarrow> bool option" where
  "accepted_status p =
     (let w = gps_input_write p; p1 = snd (sync_loop w ([], p)) in
      if gps_input_read p \<noteq> w \<and> gps_packet_type p1 = MAGELLAN_STATUS_PACKET
         \<and> sentence_due p1 w
         \<and> magellan_valid (pending_sentence p1 w) (unat (gps_magellan_length p1))
      then Some (pending_sentence p1 w 13 = 6) else None)"

definition accumulator_ok :: "statics \<Rightarrow> bool" where
  "accumulator_ok p =
     ((gps_packet_type p = UNKNOWN_PACKET \<longrightarrow> gps_packet_length p = 0)
      \<and> (gps_packet_type p \<in> {MAGELLAN_TIME_PACKET, MAGELLAN_STATUS_PACKET} \<longrightarrow>
           unat (gps_packet_length p) < unat (gps_magellan_length p)))"

text \<open>
  Any interleaving of receive interrupts and calls of the routine. \<open>track_status\<close> runs
  it and carries along the value decoded from the most recently accepted status sentence;
  the run has no result when a call does not return.
\<close>

datatype action = Receive u8 | Poll

fun track_status ::
  "('w::len globals \<Rightarrow> 'w globals) \<Rightarrow> action list \<Rightarrow> bool \<times> 'w globals \<times> statics
     \<Rightarrow> (bool \<times> 'w globals \<times> statics) option" where
  "track_status tc [] s = Some s"
| "track_status tc (Receive b # xs) (lk, g, p) =
     track_status tc xs (lk, USART1_RX_vect b (g, p))"
| "track_status tc (Poll # xs) (lk, g, p) =
     (case gps_process_buffer tc (g, p) of
        None \<Rightarrow> None
      | Some (r, ev, g1, p1) \<Rightarrow>
          track_status tc xs
            (case accepted_status p of Some b \<Rightarrow> b | None \<Rightarrow> lk, g1, p1))"

text \<open>The XOR of the packet bytes at the indices \<open>lo, ..., hi - 1\<close>.\<close>

definition xor_span :: "(nat \<Rightarrow> u8) \<Rightarrow> nat \<Rightarrow> nat \<Rightarrow> u8" where
  "xor_span pkt lo hi = fold (\<lambda>i c. c XOR pkt i) [lo..<hi] 0"

text \<open>
  The calendar as the spec words it: a year is a leap year iff divisible by 4 and, if
  also divisible by 100, also divisible by 400. Dates are (day, month, year).
\<close>

definition leap :: "nat \<Rightarrow> bool" where
  "leap y = (y mod 4 = 0 \<and> (y mod 100 = 0 \<longrightarrow> y mod 400 = 0))"

definition month_length :: "nat \<Rightarrow> nat \<Rightarrow> nat" where
  "month_length y m =
     (if m = 2 then (if leap y then 29 else 28)
      else if m \<in> {4, 6, 9, 11} then 30 else 31)"

definition next_day :: "nat \<times> nat \<times> nat \<Rightarrow> nat \<times> nat \<times> nat" where
  "next_day = (\<lambda>(d, m, y).
     if d < month_length y m then (d + 1, m, y)
     else if m < 12 then (1, m + 1, y)
     else (1, 1, y + 1))"

definition advance :: "nat \<Rightarrow> nat \<Rightarrow> nat \<times> nat \<times> nat \<Rightarrow> nat \<times> nat \<times> nat" where
  "advance years ds = (\<lambda>(d, m, y). (next_day ^^ ds) (d, m, y + years))"

definition valid_date :: "nat \<times> nat \<times> nat \<Rightarrow> bool" where
  "valid_date = (\<lambda>(d, m, y). 1 \<le> m \<and> m \<le> 12 \<and> 1 \<le> d \<and> d \<le> month_length y m)"

subsection \<open>Concrete runs\<close>

text \<open>
  The main loop polls \<^verbatim>\<open>gps_process_buffer\<close> far more often than bytes arrive at 9600
  baud, so in normal operation every received byte is followed by a call of the routine.
  \<open>serve\<close> is that schedule: a receive interrupt, then one call, per byte; it collects the
  events.
\<close>

fun serve ::
  "('w::len globals \<Rightarrow> 'w globals) \<Rightarrow> u8 list \<Rightarrow> event list \<times> 'w globals \<times> statics
     \<Rightarrow> (event list \<times> 'w globals \<times> statics) option" where
  "serve tc [] s = Some s"
| "serve tc (b # bs) (ev, g, p) =
     (case gps_process_buffer tc (USART1_RX_vect b (g, p)) of
        None \<Rightarrow> None
      | Some (r, ev1, g1, p1) \<Rightarrow> serve tc bs (ev @ ev1, g1, p1))"

text \<open>An armed controller with an exposure length of three seconds.\<close>

definition armed :: "8 globals" where
  "armed = globals_init\<lparr>gps_state := GPS_TIME_GOOD, exposure_syncing := False,
      exposure_total := 3, exposure_count := 3\<rparr>"





text \<open>
  The link is lost in the middle of a Trimble packet: the first four bytes of a frame have
  been accumulated when the watchdog timer overflows.
\<close>

definition lost_link :: "8 globals \<times> statics" where
  "lost_link =
     (case gps_process_buffer id
             (receive [DLE, ETX, DLE, 0x8F, 0xAB, 0x01] (globals_init, statics_init)) of
        Some (r, ev, g, p) \<Rightarrow> (snd (TIMER1_OVF_vect g), p)
      | None \<Rightarrow> (globals_init, statics_init))"

text \<open>
  A Magellan time sentence: \<^verbatim>\<open>$$A\<close>, one byte, 12:30:00, the raw date 1 January 1992,
  the checksum \<^verbatim>\<open>0x9C\<close> and the line feed. \<open>packet_of\<close> lays a byte list out as the
  accumulator.
\<close>

definition packet_of :: "u8 list \<Rightarrow> nat \<Rightarrow> u8" where
  "packet_of bs i = (if i < length bs then bs ! i else 0)"

definition time_sentence :: "u8 list" where
  "time_sentence =
     [0x24, 0x24, 0x41, 0x00, 12, 30, 0, 1, 1, 0x07, 0xC8, 0x9C, 0x0A]"

text \<open>
  A Magellan status sentence: \<^verbatim>\<open>$$H\<close>, ten bytes, the status byte 6 (locked), the
  checksum and the line feed. In \<open>status_input\<close> it has been received after the line feed
  of the sentence before it; in \<open>locked_receiver\<close> it has been decoded and the time sentence
  that follows it has been received.
\<close>

definition status_sentence :: "u8 list" where
  "status_sentence =
     [0x24, 0x24, 0x48, 0, 0, 0, 0, 0, 0, 0, 0, 0, 0, 6, 0x4E, 0x0A]"

definition status_input :: "8 globals \<times> statics" where
  "status_input = receive (0x0A # status_sentence) (globals_init, statics_init)"

definition status_decoded :: "8 globals \<times> statics" where
  "status_decoded =
     (case gps_process_buffer id status_input of
        Some (r, ev, g, p) \<Rightarrow> (g, p)
      | None \<Rightarrow> (globals_init, statics_init))"

definition locked_receiver :: "8 globals \<times> statics" where
  "locked_receiver = receive time_sentence status_decoded"

text \<open>
  A second status sentence, with the status byte 0 (not locked), on the line after the
  first has been decoded: whole in \<open>unlocked_input\<close>, only its first nine bytes in
  \<open>partial_input\<close>.
\<close>

definition status_unlocked :: "u8 list" where
  "status_unlocked =
     [0x24, 0x24, 0x48, 0, 0, 0, 0, 0, 0, 0, 0, 0, 0, 0, 0x48, 0x0A]"

definition unlocked_input :: "8 globals \<times> statics" where
  "unlocked_input = receive status_unlocked status_decoded"

definition partial_input :: "8 globals \<times> statics" where
  "partial_input = receive (take 9 status_unlocked) status_decoded"

text \<open>
  From startup: a status sentence reporting lock, a call, a status sentence reporting no
  lock, a call, and a time sentence. \<open>unlocked_receiver\<close> is the state this leads to.
\<close>

definition lock_schedule :: "action list" where
  "lock_schedule =
     map Receive (0x0A # status_sentence) @ [Poll] @ map Receive status_unlocked @ [Poll]
       @ map Receive time_sentence"

definition unlocked_decoded :: "8 globals \<times> statics" where
  "unlocked_decoded =
     (case gps_process_buffer id unlocked_input of
        Some (r, ev, g, p) \<Rightarrow> (g, p)
      | None \<Rightarrow> (globals_init, statics_init))"

definition unlocked_receiver :: "8 globals \<times> statics" where
  "unlocked_receiver = receive time_sentence unlocked_decoded"

text \<open>
  A corrupted sentence on the line: \<open>time_sentence\<close> with the minutes byte changed from 30
  to 31, after the line feed of the sentence before it.
\<close>

definition corrupt_input :: "8 globals \<times> statics" where
  "corrupt_input =
     receive (0x0A # time_sentence[5 := 31]) (globals_init, statics_init)"

text \<open>The same sentence with a carriage return in place of the final line feed.\<close>

definition bad_feed_input :: "8 globals \<times> statics" where
  "bad_feed_input =
     receive (0x0A # time_sentence[12 := 0x0D]) (globals_init, statics_init)"

text \<open>
  Two well-formed Trimble frames, each after the terminator of the packet before it. In
  the first the seconds and the minutes are both 16, the value of the framing byte, so the
  line carries four framing bytes in a row; in the second the low byte of the year is 16
  (the year 2064), so a doubled framing byte is followed by the terminator.
\<close>

definition payload_1616 :: "u8 list" where
  "payload_1616 = [0, 0, 0, 0, 0, 0, 0, 0, 3, 16, 16, 12, 30, 10, 0x07, 0xEA]"

definition payload_2064 :: "u8 list" where
  "payload_2064 = [0, 0, 0, 0, 0, 0, 0, 0, 3, 0, 30, 12, 30, 10, 0x08, 0x10]"

definition line_1616 :: "u8 list" where
  "line_1616 = [DLE, ETX] @ trimble_frame payload_1616"

definition line_2064 :: "u8 list" where
  "line_2064 = [DLE, ETX] @ trimble_frame payload_2064"

text \<open>
  The second frame arrives in two parts: the first call of the routine sees everything up
  to the doubled framing byte, the second call sees the terminator.
\<close>

definition first_part :: "8 globals \<times> statics" where
  "first_part =
     (case gps_process_buffer id (receive (take 22 line_2064) (globals_init, statics_init)) of
        Some (r, ev, g, p) \<Rightarrow> (g, p)
      | None \<Rightarrow> (globals_init, statics_init))"

definition second_part :: "8 globals \<times> statics" where
  "second_part = receive (drop 22 line_2064) first_part"

text \<open>
  Steady state: the first frame has been decoded in one call, and the second frame has
  been received after it.
\<close>

definition first_decoded :: "8 globals \<times> statics" where
  "first_decoded =
     (case gps_process_buffer id (receive line_1616 (globals_init, statics_init)) of
        Some (r, ev, g, p) \<Rightarrow> (g, p)
      | None \<Rightarrow> (globals_init, statics_init))"

definition next_frame :: "8 globals \<times> statics" where
  "next_frame = receive (trimble_frame payload_2064) first_decoded"

subsection \<open>Termination of the three cursor loops\<close>

text \<open>Each pass moves the 8-bit read cursor one or two places closer to the write cursor.\<close>

lemma cursor_step: "(r::u8) \<noteq> w \<Longrightarrow> unat (w - (r + 1)) < unat (w - r)"
proof -
  assume "r \<noteq> w"
  then have nz: "w - r \<noteq> 0" by simp
  have e: "w - (r + 1) = (w - r) - 1" by simp
  from nz have "unat ((w - r) - 1) < unat (w - r)"
    by (simp add: unat_minus_one unat_gt_0)
  then show ?thesis unfolding e .
qed

lemma trimble_step:
  assumes "gps_input_read p \<noteq> w" and "gps_input_read (skip_padding p) \<noteq> w"
  shows "unat (w - (gps_input_read (store_byte (skip_padding p)) + 1))
           < unat (w - gps_input_read p)"
proof (cases "gps_input_buffer p (gps_input_read p) = DLE
         \<and> gps_input_buffer p (gps_input_read p - 1) = DLE")
  case True
  then have r: "gps_input_read (skip_padding p) = gps_input_read p + 1"
    by (simp add: skip_padding_def)
  with assms have "unat (w - (gps_input_read p + 1 + 1)) < unat (w - (gps_input_read p + 1))"
    using cursor_step [of "gps_input_read p + 1" w] by simp
  moreover have "unat (w - (gps_input_read p + 1)) < unat (w - gps_input_read p)"
    using assms(1) by (rule cursor_step)
  ultimately show ?thesis using r by (simp add: store_byte_def)
next
  case False
  then have "skip_padding p = p" by (simp add: skip_padding_def)
  then show ?thesis using cursor_step [OF assms(1)] by (simp add: store_byte_def)
qed

termination sync_loop
  apply (relation "measure (\<lambda>(w, ev, p). unat (w - gps_input_read p))")
    apply simp
   apply (simp add: sync_next_def cursor_step)
  apply (simp add: sync_next_def cursor_step)
  done

termination trimble_loop
  apply (relation "measure (\<lambda>(t, w, g, p). unat (w - gps_input_read p))")
   apply simp
  apply (simp add: trimble_step)
  done

termination magellan_loop
  apply (relation "measure (\<lambda>(t, w, g, p). unat (w - gps_input_read p))")
   apply simp
  apply (simp add: store_byte_def cursor_step)
  done

declare sync_loop.simps [simp del] trimble_loop.simps [simp del] magellan_loop.simps [simp del]

section \<open>The exposure countdown on PPS edges\<close>

lemma SIG_INTERRUPT0_decrement:
  assumes "gps_state g = GPS_TIME_GOOD" and "\<not> exposure_syncing g" and "1 < unat (exposure_count g)"
  shows "SIG_INTERRUPT0 g = ([], g\<lparr>exposure_count := exposure_count g - 1\<rparr>)"
proof -
  from assms(3) have "exposure_count g \<noteq> 1"
    by (metis less_irrefl unat_1)
  then have "exposure_count g - 1 \<noteq> 0" by simp
  with assms(1,2) show ?thesis by (simp add: SIG_INTERRUPT0_def Let_def)
qed

lemma SIG_INTERRUPT0_fire:
  assumes "gps_state g = GPS_TIME_GOOD" and "\<not> exposure_syncing g" and "exposure_count g = 1"
  shows "SIG_INTERRUPT0 g =
           ([Call_trigger_download],
            g\<lparr>exposure_count := exposure_total g, gps_record_synctime := True\<rparr>)"
  using assms by (simp add: SIG_INTERRUPT0_def Let_def)

lemma pps_edges_decrement:
  "gps_state g = GPS_TIME_GOOD \<Longrightarrow> \<not> exposure_syncing g \<Longrightarrow> k < unat (exposure_count g) \<Longrightarrow>
   pps_edges k g = ([], g\<lparr>exposure_count := exposure_count g - of_nat k\<rparr>)"
proof (induction k arbitrary: g)
  case 0
  then show ?case by simp
next
  case (Suc k)
  let ?g1 = "g\<lparr>exposure_count := exposure_count g - 1\<rparr>"
  from Suc.prems have gt: "1 < unat (exposure_count g)" by simp
  then have nz: "exposure_count g \<noteq> 0" by (metis not_less_zero unat_0)
  have step: "SIG_INTERRUPT0 g = ([], ?g1)"
    using Suc.prems(1,2) gt by (rule SIG_INTERRUPT0_decrement)
  have "unat (exposure_count g - 1) = unat (exposure_count g) - 1"
    using nz by (rule unat_minus_one)
  with Suc.prems have "k < unat (exposure_count ?g1)" by simp
  with Suc.prems(1,2) have
    "pps_edges k ?g1 = ([], ?g1\<lparr>exposure_count := exposure_count ?g1 - of_nat k\<rparr>)"
    by (intro Suc.IH) simp_all
  with step show ?case by (simp add: diff_diff_eq)
qed

lemma pps_edges_Suc_last:
  "pps_edges (Suc k) g =
     (case pps_edges k g of (evs, g1) \<Rightarrow>
        (case SIG_INTERRUPT0 g1 of (ev, g2) \<Rightarrow> (evs @ ev, g2)))"
proof (induction k arbitrary: g)
  case 0
  then show ?case by (simp split: prod.splits)
next
  case (Suc k)
  obtain ev g1 where s: "SIG_INTERRUPT0 g = (ev, g1)" by (cases "SIG_INTERRUPT0 g")
  have "pps_edges (Suc (Suc k)) g =
          (case pps_edges (Suc k) g1 of (evs, g2) \<Rightarrow> (ev @ evs, g2))"
    using s by simp
  also have "\<dots> = (case pps_edges k g1 of (evs, g2) \<Rightarrow>
                        (case SIG_INTERRUPT0 g2 of (ev', g3) \<Rightarrow> (ev @ evs @ ev', g3)))"
    unfolding Suc.IH [of g1] by (simp split: prod.splits)
  also have "\<dots> = (case pps_edges (Suc k) g of (evs, g2) \<Rightarrow>
                        (case SIG_INTERRUPT0 g2 of (ev', g3) \<Rightarrow> (evs @ ev', g3)))"
    using s by (simp split: prod.splits)
  finally show ?case .
qed

text \<open>
  C7. With the link state at \<^verbatim>\<open>GPS_TIME_GOOD\<close>, not syncing, and the counter at the exposure
  length \<open>N > 0\<close>: each of the first \<open>N - 1\<close> PPS edges only decrements the counter (after
  \<open>k < N\<close> edges it is \<open>N - k\<close>, nothing is triggered and nothing else changes), and the
  \<open>N\<close>th edge triggers the download exactly once, resets the counter to \<open>N\<close> and sets
  \<^verbatim>\<open>gps_record_synctime\<close>. It holds for any width of the counter.
\<close>

theorem pps_countdown:
  fixes g :: "'w::len globals"
  assumes "gps_state g = GPS_TIME_GOOD" and "\<not> exposure_syncing g"
    and "exposure_total g = N" and "exposure_count g = N" and "N \<noteq> 0"
  shows "(\<forall>k < unat N. pps_edges k g = ([], g\<lparr>exposure_count := N - of_nat k\<rparr>))
       \<and> pps_edges (unat N) g =
           ([Call_trigger_download], g\<lparr>exposure_count := N, gps_record_synctime := True\<rparr>)"
proof
  show "\<forall>k < unat N. pps_edges k g = ([], g\<lparr>exposure_count := N - of_nat k\<rparr>)"
    using pps_edges_decrement [OF assms(1,2)] assms(4) by simp
next
  from assms(5) have pos: "0 < unat N" by (simp add: unat_gt_0)
  then obtain k where k: "unat N = Suc k" by (cases "unat N") simp_all
  let ?g1 = "g\<lparr>exposure_count := N - of_nat k\<rparr>"
  have "of_nat (Suc k) = N" using k by (metis of_nat_unat ucast_id)
  then have "N = 1 + of_nat k" by simp
  then have one: "N - of_nat k = 1" by simp
  have before: "pps_edges k g = ([], ?g1)"
    using pps_edges_decrement [OF assms(1,2), of k] assms(4) k by simp
  have "SIG_INTERRUPT0 ?g1 =
          ([Call_trigger_download],
           ?g1\<lparr>exposure_count := exposure_total ?g1, gps_record_synctime := True\<rparr>)"
    using assms(1,2) one by (intro SIG_INTERRUPT0_fire) simp_all
  with before assms(3) show
    "pps_edges (unat N) g =
       ([Call_trigger_download], g\<lparr>exposure_count := N, gps_record_synctime := True\<rparr>)"
    unfolding k pps_edges_Suc_last by simp
qed

theorem pps_countdown_witness:
  "gps_state armed = GPS_TIME_GOOD \<and> \<not> exposure_syncing armed
   \<and> exposure_total armed = 3 \<and> exposure_count armed = 3 \<and> (3 :: 8 word) \<noteq> 0
   \<and> pps_edges 2 armed = ([], armed\<lparr>exposure_count := 1\<rparr>)
   \<and> pps_edges 3 armed =
        ([Call_trigger_download], armed\<lparr>exposure_count := 3, gps_record_synctime := True\<rparr>)"
proof -
  have h: "gps_state armed = GPS_TIME_GOOD" "\<not> exposure_syncing armed"
     "exposure_total armed = 3" "exposure_count armed = 3" "(3 :: 8 word) \<noteq> 0"
    by (simp_all add: armed_def globals_init_def)
  from pps_countdown [OF h] have
    a: "\<forall>k<unat (3 :: 8 word). pps_edges k armed = ([], armed\<lparr>exposure_count := 3 - of_nat k\<rparr>)"
    and b: "pps_edges (unat (3 :: 8 word)) armed =
       ([Call_trigger_download], armed\<lparr>exposure_count := 3, gps_record_synctime := True\<rparr>)"
    by blast+
  from a have "pps_edges 2 armed = ([], armed\<lparr>exposure_count := 3 - of_nat 2\<rparr>)" by simp
  then have "pps_edges 2 armed = ([], armed\<lparr>exposure_count := 1\<rparr>)" by simp
  with h b show ?thesis by simp
qed

section \<open>set_time and the missed PPS edge\<close>




section \<open>The watchdog and the skipped-byte counter\<close>

text \<open>
  C8, as stated, fails: the byte received after the watchdog has declared the link lost
  moves the link state to syncing but discards nothing. In the run \<open>lost_link\<close> the
  accumulator still holds the four bytes of the interrupted Trimble packet after the next
  byte has been received.
\<close>

theorem next_byte_keeps_partial_packet:
  "gps_state (fst lost_link) = GPS_UNAVAILABLE
   \<and> gps_state (fst (USART1_RX_vect 0x02 lost_link)) = GPS_SYNCING
   \<and> gps_packet_type (snd (USART1_RX_vect 0x02 lost_link)) = TRIMBLE_PACKET
   \<and> packet_bytes (snd (USART1_RX_vect 0x02 lost_link)) = [DLE, 0x8F, 0xAB, 0x01]
   \<and> \<not> (gps_packet_type (snd (USART1_RX_vect 0x02 lost_link)) = UNKNOWN_PACKET
          \<and> gps_packet_length (snd (USART1_RX_vect 0x02 lost_link)) = 0)"
  by code_simp

text \<open>
  C8, amended. Every overflow of the watchdog timer sets the link state to
  \<^verbatim>\<open>GPS_UNAVAILABLE\<close> and emits one diagnostic; a further overflow leaves the globals as
  the first left them. The next received byte reloads the timer, moves the link state from
  \<^verbatim>\<open>GPS_UNAVAILABLE\<close> to \<^verbatim>\<open>GPS_SYNCING\<close> and is appended to the ring buffer; the packet
  accumulator (type, length, bytes), the read cursor and the skipped-byte counter stay as
  they were.
\<close>

theorem watchdog_then_byte:
  "TIMER1_OVF_vect g = ([Debug_string gps_msg_lost_serial], g\<lparr>gps_state := GPS_UNAVAILABLE\<rparr>)
   \<and> snd (TIMER1_OVF_vect (snd (TIMER1_OVF_vect g))) = snd (TIMER1_OVF_vect g)
   \<and> (gps_state g = GPS_UNAVAILABLE \<longrightarrow>
        fst (USART1_RX_vect b (g, p)) = g\<lparr>TCNT1 := 0x0BDB, gps_state := GPS_SYNCING\<rparr>
      \<and> snd (USART1_RX_vect b (g, p)) =
          p\<lparr>gps_input_buffer := (gps_input_buffer p)(gps_input_write p := b),
            gps_input_write := gps_input_write p + 1\<rparr>
      \<and> gps_packet_type (snd (USART1_RX_vect b (g, p))) = gps_packet_type p
      \<and> gps_packet_length (snd (USART1_RX_vect b (g, p))) = gps_packet_length p
      \<and> gps_packet (snd (USART1_RX_vect b (g, p))) = gps_packet p
      \<and> gps_input_read (snd (USART1_RX_vect b (g, p))) = gps_input_read p
      \<and> bytes_to_sync (snd (USART1_RX_vect b (g, p))) = bytes_to_sync p)"
  by (simp add: TIMER1_OVF_vect_def USART1_RX_vect_def Let_def)

theorem watchdog_then_byte_witness:
  "gps_state (globals_init :: 8 globals) = GPS_UNAVAILABLE
   \<and> fst (USART1_RX_vect 0x10 (globals_init :: 8 globals, statics_init)) =
       globals_init\<lparr>TCNT1 := 0x0BDB, gps_state := GPS_SYNCING\<rparr>
   \<and> gps_packet_type (snd (USART1_RX_vect 0x10 (globals_init :: 8 globals, statics_init)))
       = UNKNOWN_PACKET
   \<and> gps_input_write (snd (USART1_RX_vect 0x10 (globals_init :: 8 globals, statics_init))) = 1"
proof -
  have u: "gps_state (globals_init :: 8 globals) = GPS_UNAVAILABLE"
    by (simp add: globals_init_def)
  from u watchdog_then_byte [of "globals_init :: 8 globals" "0x10" statics_init]
  have "fst (USART1_RX_vect 0x10 (globals_init :: 8 globals, statics_init)) =
          globals_init\<lparr>TCNT1 := 0x0BDB, gps_state := GPS_SYNCING\<rparr>"
    and "gps_packet_type (snd (USART1_RX_vect 0x10 (globals_init :: 8 globals, statics_init)))
          = gps_packet_type statics_init"
    and "snd (USART1_RX_vect 0x10 (globals_init :: 8 globals, statics_init)) =
          statics_init\<lparr>gps_input_buffer := (gps_input_buffer statics_init)
                          (gps_input_write statics_init := 0x10),
            gps_input_write := gps_input_write statics_init + 1\<rparr>"
    by blast+
  then show ?thesis using u by (simp add: statics_init_def)
qed

text \<open>
  C9. The claim holds on the Magellan path and fails on the Trimble path, which neither logs
  nor resets the counter. Three stray bytes, the end of a packet and a Trimble preamble
  leave \<^verbatim>\<open>bytes_to_sync\<close> at 7 with nothing logged; the same number of skipped bytes before
  a Magellan preamble is logged and the counter is reset.
\<close>

theorem trimble_sync_keeps_bytes_to_sync:
  "map_option (\<lambda>(r, ev, g, p). (ev, gps_packet_type p, bytes_to_sync p))
     (gps_process_buffer id
        (receive [1, 2, 3, DLE, ETX, DLE, 0x8F, 0xAB] (globals_init :: 8 globals, statics_init)))
     = Some ([], TRIMBLE_PACKET, 7)
   \<and> map_option (\<lambda>(r, ev, g, p). (ev, gps_packet_type p, bytes_to_sync p))
     (gps_process_buffer id
        (receive [1, 2, 3, 4, 0x0A, 0x24, 0x24, 0x41] (globals_init :: 8 globals, statics_init)))
     = Some ([Debug_skipped_bytes 7], MAGELLAN_TIME_PACKET, 0)"
  by code_simp

section \<open>The epoch correction\<close>

lemma next_day_run:
  "d + k \<le> month_length y m \<Longrightarrow> (next_day ^^ k) (d, m, y) = (d + k, m, y)"
  by (induction k) (simp_all add: next_day_def)

lemma next_day_month:
  assumes "m < 12"
  shows "(next_day ^^ month_length y m) (1, m, y) = (1, Suc m, y)"
proof -
  have "0 < month_length y m" by (simp add: month_length_def)
  then obtain j where j: "month_length y m = Suc j" by (cases "month_length y m") simp_all
  then have "(next_day ^^ j) (1, m, y) = (1 + j, m, y)" by (intro next_day_run) simp
  then have "(next_day ^^ Suc j) (1, m, y) = next_day (Suc j, m, y)" by simp
  also have "\<dots> = (1, Suc m, y)" using assms j by (simp add: next_day_def)
  finally show ?thesis using j by simp
qed

lemma funpow_then:
  "(f ^^ a) x = y \<Longrightarrow> (f ^^ b) y = z \<Longrightarrow> (f ^^ (a + b)) x = z"
  by (simp add: funpow_add add.commute [of a b])

lemma advance_from_february:
  "advance 19 229 (1, 2, 1992) = (18, 9, 2011)"
proof -
  have m2: "(next_day ^^ 28) (1, 2, 2011) = (1, 3, 2011)"
    using next_day_month [of 2 2011] by (simp add: month_length_def leap_def)
  have m3: "(next_day ^^ 31) (1, 3, 2011) = (1, 4, 2011)"
    using next_day_month [of 3 2011] by (simp add: month_length_def)
  have m4: "(next_day ^^ 30) (1, 4, 2011) = (1, 5, 2011)"
    using next_day_month [of 4 2011] by (simp add: month_length_def)
  have m5: "(next_day ^^ 31) (1, 5, 2011) = (1, 6, 2011)"
    using next_day_month [of 5 2011] by (simp add: month_length_def)
  have m6: "(next_day ^^ 30) (1, 6, 2011) = (1, 7, 2011)"
    using next_day_month [of 6 2011] by (simp add: month_length_def)
  have m7: "(next_day ^^ 31) (1, 7, 2011) = (1, 8, 2011)"
    using next_day_month [of 7 2011] by (simp add: month_length_def)
  have m8: "(next_day ^^ 31) (1, 8, 2011) = (1, 9, 2011)"
    using next_day_month [of 8 2011] by (simp add: month_length_def)
  have m9: "(next_day ^^ 17) (1, 9, 2011) = (18, 9, 2011)"
    using next_day_run [of 1 17 2011 9] by (simp add: month_length_def)
  have "(next_day ^^ (28 + 31 + 30 + 31 + 30 + 31 + 31 + 17)) (1, 2, 2011) = (18, 9, 2011)"
    by (rule funpow_then [OF funpow_then [OF funpow_then [OF funpow_then [OF funpow_then
          [OF funpow_then [OF funpow_then [OF m2 m3] m4] m5] m6] m7] m8] m9])
  then show ?thesis by (simp add: advance_def)
qed

text \<open>
  C2. The code's own comment says it adds 19 years and 229 days, and it does not: in every
  pass the loop subtracts the length of the month it has just moved to, not of the month it
  leaves, and the 8-bit correction can wrap below zero. For the raw date 1 February 1992
  the routine returns 16 September 2011; the date 19 years and 229 days after it is
  18 September 2011. For 31 January 1992 it returns 31 October 2027.
\<close>

theorem epoch_correction_off_by_two:
  "epoch_correction 1 2 (raw_year 0x07 0xC8) = Some (16, 9, 2011)
   \<and> epoch_correction 31 1 (raw_year 0x07 0xC8) = Some (31, 10, 2027)
   \<and> unat (raw_year 0x07 0xC8) = 1992
   \<and> valid_date (1, 2, 1992)
   \<and> advance 19 229 (1, 2, 1992) = (18, 9, 2011)"
proof -
  have "epoch_correction 1 2 (raw_year 0x07 0xC8) = Some (16, 9, 2011)" by code_simp
  moreover have "epoch_correction 31 1 (raw_year 0x07 0xC8) = Some (31, 10, 2027)" by code_simp
  moreover have "unat (raw_year 0x07 0xC8) = 1992" by code_simp
  moreover have "valid_date (1, 2, 1992)" by (simp add: valid_date_def month_length_def)
  ultimately show ?thesis using advance_from_february by simp
qed

section \<open>The Magellan checksum\<close>

lemma fold_xor_start:
  "fold (\<lambda>i c. c XOR pkt i) xs (a :: u8) = a XOR fold (\<lambda>i c. c XOR pkt i) xs 0"
proof (induction xs arbitrary: a)
  case Nil
  then show ?case by simp
next
  case (Cons x xs)
  have "fold (\<lambda>i c. c XOR pkt i) (x # xs) a = (a XOR pkt x) XOR fold (\<lambda>i c. c XOR pkt i) xs 0"
    using Cons.IH [of "a XOR pkt x"] by simp
  also have "\<dots> = a XOR (pkt x XOR fold (\<lambda>i c. c XOR pkt i) xs 0)"
    by (simp add: xor.assoc)
  also have "pkt x XOR fold (\<lambda>i c. c XOR pkt i) xs 0 = fold (\<lambda>i c. c XOR pkt i) (x # xs) 0"
    using Cons.IH [of "pkt x"] by simp
  finally show ?case .
qed

lemma magellan_checksum_type_byte:
  "magellan_checksum pkt n = pkt 2 XOR xor_span pkt 3 (n - 2)"
  unfolding magellan_checksum_def xor_span_def by (rule fold_xor_start)

lemma xor_span_first:
  "lo < hi \<Longrightarrow> xor_span pkt lo hi = pkt lo XOR xor_span pkt (Suc lo) hi"
  unfolding xor_span_def by (simp add: upt_conv_Cons fold_xor_start [of pkt _ "pkt lo"])

lemma magellan_checksum_xor_span:
  "5 \<le> n \<Longrightarrow> magellan_checksum pkt n = xor_span pkt 2 (n - 2)"
  using xor_span_first [of 2 "n - 2" pkt]
  by (simp add: magellan_checksum_type_byte numeral_3_eq_3 numeral_2_eq_2)

text \<open>
  C5, as stated, fails: the type byte is part of the checksum. The decoder accepts
  \<open>time_sentence\<close>, whose stored checksum \<^verbatim>\<open>0x9C\<close> is the XOR from the type byte on; the
  XOR of the span strictly between the type byte and the checksum byte is \<^verbatim>\<open>0xDD\<close>.
\<close>

theorem checksum_covers_type_byte:
  "magellan_checksum (packet_of time_sentence) 13 = 0x9C
   \<and> xor_span (packet_of time_sentence) 3 11 = 0xDD
   \<and> magellan_checksum (packet_of time_sentence) 13 \<noteq> xor_span (packet_of time_sentence) 3 11
   \<and> map_option (\<lambda>(r, ev, g, p). (r, ev, gps_last_timestamp g))
        (gps_process_buffer id
           (receive (0x0A # time_sentence) (globals_init :: 8 globals, statics_init)))
       = Some (True, [Send_timestamp],
           \<lparr>hours = 12, minutes = 30, seconds = 0, day = 18, month = 8, year = 2011,
            locked = False\<rparr>)"
  by code_simp

text \<open>
  C5, amended. For a completed sentence of at least five bytes (13 and 16 are the expected
  lengths) the checksum that the decoder compares with the stored checksum byte is the XOR
  of the span from the sentence-type byte, inclusive, up to the checksum byte, exclusive:
  it is the type byte XORed into the XOR of the bytes strictly between the two.
\<close>

theorem magellan_checksum_span:
  "5 \<le> n \<Longrightarrow>
     magellan_checksum pkt n = xor_span pkt 2 (n - 2)
   \<and> magellan_checksum pkt n = pkt 2 XOR xor_span pkt 3 (n - 2)"
  using magellan_checksum_xor_span [of n pkt] magellan_checksum_type_byte [of pkt n]
  by simp

theorem magellan_checksum_span_witness:
  "(5::nat) \<le> 13
   \<and> magellan_checksum (packet_of time_sentence) 13 = xor_span (packet_of time_sentence) 2 11
   \<and> xor_span (packet_of time_sentence) 2 11 = 0x9C"
proof -
  have h: "(5::nat) \<le> 13" by simp
  have "xor_span (packet_of time_sentence) 2 11 = 0x9C" by code_simp
  with h magellan_checksum_span [OF h, of "packet_of time_sentence"] show ?thesis by simp
qed

section \<open>The unread bytes and the accumulator\<close>

lemma unread_Nil: "gps_input_read p = w \<Longrightarrow> unread p w = []"
  by (simp add: unread_def)

lemma unread_Cons:
  assumes "gps_input_read p \<noteq> w"
  shows "unread p w = gps_input_buffer p (gps_input_read p)
           # unread (p\<lparr>gps_input_read := gps_input_read p + 1\<rparr>) w"
proof -
  let ?r = "gps_input_read p"
  from assms have nz: "w - ?r \<noteq> 0" by simp
  have e: "w - (?r + 1) = (w - ?r) - 1" by simp
  have "unat (w - (?r + 1)) = unat (w - ?r) - 1"
    unfolding e using nz by (rule unat_minus_one)
  moreover from nz have "0 < unat (w - ?r)" by (simp add: unat_gt_0)
  ultimately have n: "unat (w - ?r) = Suc (unat (w - (?r + 1)))" by simp
  have "map (\<lambda>i. gps_input_buffer p (?r + of_nat i)) [0..<Suc (unat (w - (?r + 1)))]
      = gps_input_buffer p ?r
        # map (\<lambda>i. gps_input_buffer p (?r + 1 + of_nat i)) [0..<unat (w - (?r + 1))]"
    by (simp add: upt_conv_Cons map_Suc_upt [symmetric] add.assoc del: upt_Suc)
  then show ?thesis by (simp add: unread_def n)
qed

lemma fill_Cons: "fill (pkt(k := y)) (Suc k) bs i = fill pkt k (y # bs) i"
proof (cases "Suc k \<le> i")
  case True
  then obtain j where "i = Suc k + j" by (metis le_add_diff_inverse)
  then show ?thesis by (simp add: fill_def)
next
  case False
  then show ?thesis by (auto simp: fill_def)
qed

lemma fill_last: "i < Suc k \<Longrightarrow> (pkt(k := y)) i = fill pkt k (y # bs) i"
  by (auto simp: fill_def)

lemma fill_Cons_fun: "fill (pkt(k := y)) (Suc k) bs = fill pkt k (y # bs)"
  by (rule ext) (rule fill_Cons)

lemma fill_single: "pkt(k := y) = fill pkt k [y]"
  by (rule ext) (simp add: fill_def)

section \<open>Rejected sentences and the locked flag\<close>

lemma xor_span_cong:
  "(\<And>j. lo \<le> j \<Longrightarrow> j < hi \<Longrightarrow> f j = g j) \<Longrightarrow> xor_span f lo hi = xor_span g lo hi"
  unfolding xor_span_def by (rule fold_cong) auto

lemma xor_span_split:
  assumes "lo \<le> i" and "i < hi"
  shows "xor_span pkt lo hi = xor_span pkt lo i XOR pkt i XOR xor_span pkt (Suc i) hi"
proof -
  have "[lo..<hi] = [lo..<i] @ i # [Suc i..<hi]"
    using assms by (metis le_add_diff_inverse less_imp_le_nat upt_add_eq_append upt_conv_Cons)
  then have "xor_span pkt lo hi =
      fold (\<lambda>i c. c XOR pkt i) [Suc i..<hi] (xor_span pkt lo i XOR pkt i)"
    by (simp add: xor_span_def)
  also have "\<dots> = (xor_span pkt lo i XOR pkt i) XOR xor_span pkt (Suc i) hi"
    unfolding xor_span_def by (rule fold_xor_start)
  finally show ?thesis by (simp add: xor.assoc)
qed

lemma xor_cancel_left:
  assumes "(a :: u8) XOR x = a XOR y"
  shows "x = y"
proof -
  have "(a XOR a) XOR x = a XOR (a XOR x)" by (simp only: xor.assoc)
  also have "\<dots> = a XOR (a XOR y)" by (simp only: assms)
  also have "\<dots> = (a XOR a) XOR y" by (simp only: xor.assoc)
  finally show ?thesis by simp
qed

lemma xor_cancel_both: "(a :: u8) XOR (x XOR b) = a XOR (y XOR b) \<longleftrightarrow> x = y"
proof
  assume "a XOR (x XOR b) = a XOR (y XOR b)"
  then have "x XOR b = y XOR b" by (rule xor_cancel_left)
  then have "b XOR x = b XOR y" by (simp add: xor.commute)
  then show "x = y" by (rule xor_cancel_left)
qed simp

lemma magellan_checksum_mutation:
  assumes "2 \<le> i" and "i < n - 2" and "v \<noteq> pkt i"
  shows "magellan_checksum (pkt(i := v)) n \<noteq> magellan_checksum pkt n"
proof -
  from assms have n: "5 \<le> n" by simp
  have a: "xor_span (pkt(i := v)) 2 i = xor_span pkt 2 i"
    by (rule xor_span_cong) simp
  have b: "xor_span (pkt(i := v)) (Suc i) (n - 2) = xor_span pkt (Suc i) (n - 2)"
    by (rule xor_span_cong) simp
  have "xor_span (pkt(i := v)) 2 (n - 2) = xor_span pkt 2 i XOR v XOR xor_span pkt (Suc i) (n - 2)"
    using xor_span_split [OF assms(1,2), of "pkt(i := v)"] a b by simp
  moreover have "xor_span pkt 2 (n - 2) = xor_span pkt 2 i XOR pkt i XOR xor_span pkt (Suc i) (n - 2)"
    by (rule xor_span_split [OF assms(1,2)])
  ultimately have "xor_span (pkt(i := v)) 2 (n - 2) \<noteq> xor_span pkt 2 (n - 2)"
    using assms(3) by (simp add: xor_cancel_both)
  then show ?thesis using magellan_checksum_xor_span [OF n] by simp
qed

lemma set_time_events:
  "Send_timestamp \<in> set (fst (set_time tc t g))
   \<and> gps_last_timestamp (snd (set_time tc t g)) = t"
  by (simp add: set_time_def Let_def split: prod.splits)

lemma magellan_packet_end_cases:
  assumes "magellan_packet_end tc (g, p) = Some (r, ev, g', p')"
  shows "gps_packet p' = gps_packet p \<and> gps_magellan_length p' = gps_magellan_length p
    \<and> (\<not> magellan_valid (gps_packet p) (unat (gps_packet_length p)) \<longrightarrow>
          \<not> r \<and> g' = g \<and> gps_magellan_locked p' = gps_magellan_locked p
          \<and> Send_timestamp \<notin> set ev)
    \<and> (Send_timestamp \<in> set ev \<longrightarrow>
          gps_packet_type p = MAGELLAN_TIME_PACKET
          \<and> locked (gps_last_timestamp g') = gps_magellan_locked p
          \<and> gps_magellan_locked p' = gps_magellan_locked p)
    \<and> (gps_magellan_locked p' \<noteq> gps_magellan_locked p \<longrightarrow>
          gps_packet_type p = MAGELLAN_STATUS_PACKET \<and> r \<and> g' = g
          \<and> gps_magellan_locked p' = (gps_packet p 13 = 6))"
proof (cases "magellan_valid (gps_packet p) (unat (gps_packet_length p))")
  case False
  with assms show ?thesis
    by (auto simp: magellan_packet_end_def magellan_valid_def Let_def reset_packet_def
        split: if_splits)
next
  case True
  show ?thesis
  proof (cases "gps_packet_type p = MAGELLAN_TIME_PACKET")
    case time: True
    from assms True time obtain date ev1 g1 where
      st: "set_time tc (magellan_timestamp (gps_packet p) date (gps_magellan_locked p)) g
             = (ev1, g1)"
      and res: "r = True" "ev = ev1" "g' = g1" "p' = reset_packet p"
      by (auto simp: magellan_packet_end_def magellan_valid_def Let_def
          split: if_splits Option.bind_splits prod.splits)
    let ?t = "magellan_timestamp (gps_packet p) date (gps_magellan_locked p)"
    from res st have ev: "ev = fst (set_time tc ?t g)" and g': "g' = snd (set_time tc ?t g)"
      and p': "p' = reset_packet p"
      by simp_all
    have "locked ?t = gps_magellan_locked p"
      by (cases date) (simp add: magellan_timestamp_def)
    with ev g' p' time show ?thesis
      using set_time_events [of tc ?t g] True by (simp add: reset_packet_def)
  next
    case False
    with assms True show ?thesis
      by (auto simp: magellan_packet_end_def magellan_valid_def Let_def reset_packet_def
          split: if_splits)
  qed
qed

lemma magellan_loop_cases:
  assumes "magellan_loop tc tw s = Some (r, ev, g', p')"
  shows "(\<not> r \<and> ev = [] \<and> g' = fst s \<and> gps_magellan_locked p' = gps_magellan_locked (snd s))
    \<or> (\<exists>p1. magellan_packet_end tc (fst s, p1) = Some (r, ev, g', p')
           \<and> gps_packet_length p1 = gps_magellan_length (snd s)
           \<and> gps_magellan_length p1 = gps_magellan_length (snd s)
           \<and> gps_packet_type p1 = gps_packet_type (snd s)
           \<and> gps_magellan_locked p1 = gps_magellan_locked (snd s))"
  using assms
proof (induction tc tw s rule: magellan_loop.induct)
  case (1 tc tw g p)
  show ?case
  proof (cases "gps_input_read p \<noteq> tw")
    case False
    with "1.prems" show ?thesis by (simp add: magellan_loop.simps [of tc tw g p])
  next
    case more: True
    let ?p1 = "store_byte p"
    have keep: "gps_magellan_length ?p1 = gps_magellan_length p"
      "gps_packet_type ?p1 = gps_packet_type p"
      "gps_magellan_locked ?p1 = gps_magellan_locked p"
      by (simp_all add: store_byte_def)
    show ?thesis
    proof (cases "gps_packet_length ?p1 = gps_magellan_length ?p1")
      case True
      with more "1.prems" have "magellan_packet_end tc (g, ?p1) = Some (r, ev, g', p')"
        by (simp add: magellan_loop.simps [of tc tw g p] Let_def)
      with True keep show ?thesis by auto
    next
      case False
      let ?p2 = "?p1\<lparr>gps_input_read := gps_input_read ?p1 + 1\<rparr>"
      from more False "1.prems" have "magellan_loop tc tw (g, ?p2) = Some (r, ev, g', p')"
        by (simp add: magellan_loop.simps [of tc tw g p] Let_def)
      from "1.IH" [OF more refl False this] keep show ?thesis by simp
    qed
  qed
qed

lemma sync_loop_frame:
  "gps_magellan_locked (snd (sync_loop tw s)) = gps_magellan_locked (snd s)
   \<and> (Send_timestamp \<in> set (fst (sync_loop tw s)) \<longrightarrow> Send_timestamp \<in> set (fst s))"
proof (induction tw s rule: sync_loop.induct)
  case (1 tw ev p)
  show ?case
  proof (cases "gps_packet_type p = UNKNOWN_PACKET \<and> gps_input_read p \<noteq> tw")
    case False
    then show ?thesis by (auto simp: sync_loop.simps [of tw ev p])
  next
    case scan: True
    show ?thesis
    proof (cases "magellan_preamble p")
      case mgl: True
      show ?thesis
      proof (cases "gps_input_buffer p (gps_input_read p) = 0x41
                 \<or> gps_input_buffer p (gps_input_read p) = 0x48")
        case True
        with scan mgl show ?thesis
          by (auto simp: sync_loop.simps [of tw ev p] magellan_synced_def)
      next
        case False
        with scan mgl "1.IH"(1) show ?thesis
          by (simp add: sync_loop.simps [of tw ev p] sync_next_def)
      qed
    next
      case nomgl: False
      show ?thesis
      proof (cases "trimble_preamble p")
        case True
        with scan nomgl show ?thesis by (simp add: sync_loop.simps [of tw ev p])
      next
        case False
        with scan nomgl "1.IH"(2) show ?thesis
          by (simp add: sync_loop.simps [of tw ev p] sync_next_def)
      qed
    qed
  qed
qed

lemma trimble_loop_frame:
  "trimble_loop tc tw s = (r, ev, g', p') \<Longrightarrow>
     gps_magellan_locked p' = gps_magellan_locked (snd s)"
proof (induction tc tw s rule: trimble_loop.induct)
  case (1 tc tw g p)
  let ?p1 = "skip_padding p"
  let ?p2 = "store_byte ?p1"
  have keep: "gps_magellan_locked ?p1 = gps_magellan_locked p"
    "gps_magellan_locked ?p2 = gps_magellan_locked p"
    by (simp_all add: skip_padding_def store_byte_def)
  show ?case
  proof (cases "gps_input_read p \<noteq> tw \<and> gps_input_read ?p1 \<noteq> tw")
    case False
    with "1.prems" keep show ?thesis
      by (auto simp: trimble_loop.simps [of tc tw g p] Let_def split: if_splits)
  next
    case more: True
    show ?thesis
    proof (cases "gps_packet_length ?p2 = 21")
      case True
      with more "1.prems" have "trimble_packet_end tc (g, ?p2) = (r, ev, g', p')"
        by (simp add: trimble_loop.simps [of tc tw g p] Let_def)
      then have "p' = reset_packet ?p2"
        by (auto simp: trimble_packet_end_def split: if_splits prod.splits)
      with keep show ?thesis by (simp add: reset_packet_def)
    next
      case False
      let ?p3 = "?p2\<lparr>gps_input_read := gps_input_read ?p2 + 1\<rparr>"
      from more False "1.prems" have "trimble_loop tc tw (g, ?p3) = (r, ev, g', p')"
        by (simp add: trimble_loop.simps [of tc tw g p] Let_def)
      from "1.IH" [OF _ refl _ refl False this] more keep show ?thesis by simp
    qed
  qed
qed

lemma gps_process_buffer_magellan:
  assumes "gps_process_buffer tc (g, p) = Some (r, ev, g', p')"
    and "gps_input_read p \<noteq> gps_input_write p"
    and "gps_packet_type (snd (sync_loop (gps_input_write p) ([], p)))
           \<in> {MAGELLAN_TIME_PACKET, MAGELLAN_STATUS_PACKET}"
  shows "\<exists>ev2. magellan_loop tc (gps_input_write p)
                  (g, snd (sync_loop (gps_input_write p) ([], p))) = Some (r, ev2, g', p')
               \<and> ev = fst (sync_loop (gps_input_write p) ([], p)) @ ev2"
  using assms
  by (auto simp: gps_process_buffer_def Let_def split: prod.splits packet_type.splits)

lemma gps_process_buffer_other:
  assumes "gps_process_buffer tc (g, p) = Some (r, ev, g', p')"
    and "gps_input_read p = gps_input_write p
         \<or> gps_packet_type (snd (sync_loop (gps_input_write p) ([], p)))
              \<notin> {MAGELLAN_TIME_PACKET, MAGELLAN_STATUS_PACKET}"
  shows "gps_magellan_locked p' = gps_magellan_locked p"
proof (cases "gps_input_read p = gps_input_write p")
  case True
  with assms(1) show ?thesis by (simp add: gps_process_buffer_def Let_def)
next
  case False
  obtain ev1 p1 where sync: "sync_loop (gps_input_write p) ([], p) = (ev1, p1)"
    by (cases "sync_loop (gps_input_write p) ([], p)")
  have p1: "gps_magellan_locked p1 = gps_magellan_locked p"
    using sync_loop_frame [of "gps_input_write p" "([], p)"] sync by simp
  from assms(2) False sync have
    ty: "gps_packet_type p1 = UNKNOWN_PACKET \<or> gps_packet_type p1 = TRIMBLE_PACKET"
    by (cases "gps_packet_type p1") simp_all
  then show ?thesis
  proof
    assume "gps_packet_type p1 = UNKNOWN_PACKET"
    with assms(1) False sync p1 show ?thesis
      by (simp add: gps_process_buffer_def Let_def)
  next
    assume t: "gps_packet_type p1 = TRIMBLE_PACKET"
    obtain r2 ev2 g2 p2 where
      loop: "trimble_loop tc (gps_input_write p) (g, p1) = (r2, ev2, g2, p2)"
      by (cases "trimble_loop tc (gps_input_write p) (g, p1)")
    with assms(1) False sync t have "p' = p2"
      by (simp add: gps_process_buffer_def Let_def)
    with trimble_loop_frame [OF loop] p1 show ?thesis by simp
  qed
qed

text \<open>
  The Magellan loop, read off the unread bytes. When a sentence is due the loop stores the
  missing bytes and hands the completed accumulator to the decoding step; when the unread
  bytes run out first it returns \<^verbatim>\<open>FALSE\<close> with the globals as they were. Either way it
  returns, unless the epoch correction of a valid time sentence does not.
\<close>

lemma magellan_loop_completes:
  "unat (gps_packet_length (snd s)) = k \<Longrightarrow> unat (gps_magellan_length (snd s)) = m \<Longrightarrow>
   k < m \<Longrightarrow> m - k \<le> length (unread (snd s) tw) \<Longrightarrow>
   \<exists>q. magellan_loop tc tw s = magellan_packet_end tc (fst s, q)
      \<and> gps_packet q = fill (gps_packet (snd s)) k (take (m - k) (unread (snd s) tw))
      \<and> unat (gps_packet_length q) = m
      \<and> gps_magellan_length q = gps_magellan_length (snd s)
      \<and> gps_packet_type q = gps_packet_type (snd s)
      \<and> gps_magellan_locked q = gps_magellan_locked (snd s)"
proof (induction tc tw s arbitrary: k rule: magellan_loop.induct)
  case (1 tc tw g p)
  let ?y = "gps_input_buffer p (gps_input_read p)"
  let ?p1 = "store_byte p"
  let ?p2 = "?p1\<lparr>gps_input_read := gps_input_read ?p1 + 1\<rparr>"
  let ?bs' = "unread (p\<lparr>gps_input_read := gps_input_read p + 1\<rparr>) tw"
  from "1.prems" have "unread p tw \<noteq> []" by auto
  then have ne: "gps_input_read p \<noteq> tw" by (auto simp: unread_Nil)
  then have bs: "unread p tw = ?y # ?bs'" by (rule unread_Cons)
  have m: "m < 256" using "1.prems"(2) unsigned_less [where 'a = nat, of "gps_magellan_length p"]
    by simp
  from "1.prems" have len: "gps_packet_length p = of_nat k"
    by (metis of_nat_unat ucast_id snd_conv)
  have k1: "unat (of_nat (Suc k) :: u8) = Suc k"
    using "1.prems"(3) m by (simp add: unat_of_nat del: of_nat_Suc)
  have p1: "gps_packet ?p1 = (gps_packet p)(k := ?y)"
    "gps_packet_length ?p1 = of_nat (Suc k)"
    "gps_magellan_length ?p1 = gps_magellan_length p"
    "gps_packet_type ?p1 = gps_packet_type p"
    "gps_magellan_locked ?p1 = gps_magellan_locked p"
    using "1.prems"(1) len by (simp_all add: store_byte_def)
  have unfold: "magellan_loop tc tw (g, p) =
      (if gps_packet_length ?p1 = gps_magellan_length ?p1 then magellan_packet_end tc (g, ?p1)
       else magellan_loop tc tw (g, ?p2))"
    using ne by (simp add: magellan_loop.simps [of tc tw g p] Let_def)
  show ?case
  proof (cases "gps_packet_length ?p1 = gps_magellan_length ?p1")
    case True
    then have "unat (of_nat (Suc k) :: u8) = unat (gps_magellan_length p)"
      using p1 by simp
    then have e: "Suc k = m" using k1 "1.prems"(2) by simp
    then have "take (m - k) (unread p tw) = [?y]" using bs by auto
    then have "gps_packet ?p1 = fill (gps_packet p) k (take (m - k) (unread p tw))"
      using p1(1) fill_single [of "gps_packet p" k ?y] by simp
    moreover have "unat (gps_packet_length ?p1) = m" using p1(2) k1 e by simp
    ultimately show ?thesis using True unfold p1 by auto
  next
    case False
    have km: "Suc k < m"
    proof (rule ccontr)
      assume "\<not> Suc k < m"
      with "1.prems"(3) have "Suc k = m" by simp
      then have "gps_packet_length ?p1 = gps_magellan_length ?p1"
        using p1 "1.prems"(2) by (metis of_nat_unat ucast_id snd_conv)
      with False show False by simp
    qed
    have a: "unat (gps_packet_length (snd (g, ?p2))) = Suc k" using p1(2) k1 by simp
    have b: "unat (gps_magellan_length (snd (g, ?p2))) = m" using p1(3) "1.prems"(2) by simp
    have u: "unread (snd (g, ?p2)) tw = ?bs'" by (simp add: unread_def store_byte_def)
    from "1.prems"(4) bs have "m - Suc k \<le> length ?bs'" by simp
    with u have c: "m - Suc k \<le> length (unread (snd (g, ?p2)) tw)" by simp
    from "1.IH" [OF ne refl False a b km c] obtain q where
      q: "magellan_loop tc tw (g, ?p2) = magellan_packet_end tc (g, q)"
      and pk: "gps_packet q = fill (gps_packet ?p2) (Suc k) (take (m - Suc k) ?bs')"
      and rest: "unat (gps_packet_length q) = m"
        "gps_magellan_length q = gps_magellan_length ?p2"
        "gps_packet_type q = gps_packet_type ?p2"
        "gps_magellan_locked q = gps_magellan_locked ?p2"
      unfolding u by auto
    have "take (m - k) (unread p tw) = ?y # take (m - Suc k) ?bs'"
      using bs km by (simp add: take_Cons')
    with pk have "gps_packet q = fill (gps_packet p) k (take (m - k) (unread p tw))"
      using p1(1) by (simp add: fill_Cons_fun)
    with q rest unfold False p1 show ?thesis by auto
  qed
qed

lemma magellan_loop_waits:
  "unat (gps_packet_length (snd s)) = k \<Longrightarrow> unat (gps_magellan_length (snd s)) = m \<Longrightarrow>
   k < m \<Longrightarrow> length (unread (snd s) tw) < m - k \<Longrightarrow>
   \<exists>p'. magellan_loop tc tw s = Some (False, [], fst s, p')
      \<and> gps_magellan_locked p' = gps_magellan_locked (snd s)
      \<and> gps_packet_type p' = gps_packet_type (snd s)
      \<and> unat (gps_packet_length p') < unat (gps_magellan_length p')"
proof (induction tc tw s arbitrary: k rule: magellan_loop.induct)
  case (1 tc tw g p)
  let ?y = "gps_input_buffer p (gps_input_read p)"
  let ?p1 = "store_byte p"
  let ?p2 = "?p1\<lparr>gps_input_read := gps_input_read ?p1 + 1\<rparr>"
  let ?bs' = "unread (p\<lparr>gps_input_read := gps_input_read p + 1\<rparr>) tw"
  show ?case
  proof (cases "gps_input_read p = tw")
    case True
    then show ?thesis using "1.prems" by (simp add: magellan_loop.simps [of tc tw g p])
  next
    case ne: False
    then have bs: "unread p tw = ?y # ?bs'" by (rule unread_Cons)
    have m: "m < 256" using "1.prems"(2) unsigned_less [where 'a = nat, of "gps_magellan_length p"]
      by simp
    from "1.prems" have len: "gps_packet_length p = of_nat k"
      by (metis of_nat_unat ucast_id snd_conv)
    have k1: "unat (of_nat (Suc k) :: u8) = Suc k"
      using "1.prems"(3) m by (simp add: unat_of_nat del: of_nat_Suc)
    have p1: "gps_packet_length ?p1 = of_nat (Suc k)"
      "gps_magellan_length ?p1 = gps_magellan_length p"
      "gps_packet_type ?p1 = gps_packet_type p"
      "gps_magellan_locked ?p1 = gps_magellan_locked p"
      using "1.prems"(1) len by (simp_all add: store_byte_def)
    from "1.prems"(4) bs have km: "Suc k < m" by simp
    have False: "gps_packet_length ?p1 \<noteq> gps_magellan_length ?p1"
    proof
      assume "gps_packet_length ?p1 = gps_magellan_length ?p1"
      then have "unat (of_nat (Suc k) :: u8) = unat (gps_magellan_length p)" using p1 by simp
      with k1 "1.prems"(2) km show False by simp
    qed
    have unfold: "magellan_loop tc tw (g, p) = magellan_loop tc tw (g, ?p2)"
      using ne False by (simp add: magellan_loop.simps [of tc tw g p] Let_def)
    have a: "unat (gps_packet_length (snd (g, ?p2))) = Suc k" using p1(1) k1 by simp
    have b: "unat (gps_magellan_length (snd (g, ?p2))) = m" using p1(2) "1.prems"(2) by simp
    have u: "unread (snd (g, ?p2)) tw = ?bs'" by (simp add: unread_def store_byte_def)
    from "1.prems"(4) bs have "length ?bs' < m - Suc k" by simp
    with u have c: "length (unread (snd (g, ?p2)) tw) < m - Suc k" by simp
    from "1.IH" [OF _ refl False a b km c] ne unfold p1 show ?thesis by auto
  qed
qed

lemma magellan_packet_end_invalid:
  assumes "\<not> magellan_valid (gps_packet q) (unat (gps_packet_length q))"
  shows "magellan_packet_end tc (g, q) =
     Some (False,
           [if gps_packet q (unat (gps_packet_length q) - 1) = 0x0A
            then Debug_checksum_failed
                   (magellan_checksum (gps_packet q) (unat (gps_packet_length q)))
                   (gps_packet q (unat (gps_packet_length q) - 2))
            else Debug_string gps_msg_bad_packet,
            Debug_raw (packet_bytes q)], g, reset_packet q)"
  using assms by (simp add: magellan_packet_end_def magellan_valid_def Let_def)

lemma magellan_packet_end_status:
  assumes "magellan_valid (gps_packet q) (unat (gps_packet_length q))"
    and "gps_packet_type q = MAGELLAN_STATUS_PACKET"
  shows "magellan_packet_end tc (g, q) =
     Some (gps_magellan_locked q \<noteq> (gps_packet q 13 = 6), [], g,
           reset_packet (q\<lparr>gps_magellan_locked := (gps_packet q 13 = 6)\<rparr>))"
proof (cases "gps_magellan_locked q = (gps_packet q 13 = 6)")
  case True
  then have same: "q\<lparr>gps_magellan_locked := (gps_packet q 13 = 6)\<rparr> = q" by simp
  show ?thesis unfolding same using True assms
    by (simp add: magellan_packet_end_def magellan_valid_def Let_def)
next
  case False
  with assms show ?thesis
    by (simp add: magellan_packet_end_def magellan_valid_def Let_def)
qed

lemma magellan_packet_end_time:
  assumes "magellan_valid (gps_packet q) (unat (gps_packet_length q))"
    and "gps_packet_type q = MAGELLAN_TIME_PACKET"
    and "epoch_correction (gps_packet q 7) (gps_packet q 8)
           (raw_year (gps_packet q 9) (gps_packet q 10)) = Some date"
  shows "magellan_packet_end tc (g, q) =
     Some (True,
           fst (set_time tc (magellan_timestamp (gps_packet q) date (gps_magellan_locked q)) g),
           snd (set_time tc (magellan_timestamp (gps_packet q) date (gps_magellan_locked q)) g),
           reset_packet q)"
  using assms
  by (simp add: magellan_packet_end_def magellan_valid_def Let_def split: prod.splits)

lemma gps_process_buffer_magellan_run:
  assumes "gps_input_read p \<noteq> gps_input_write p"
    and "sync_loop (gps_input_write p) ([], p) = (ev1, p1)"
    and "gps_packet_type p1 \<in> {MAGELLAN_TIME_PACKET, MAGELLAN_STATUS_PACKET}"
  shows "gps_process_buffer tc (g, p) =
     map_option (\<lambda>(r, ev2, g2, p2). (r, ev1 @ ev2, g2, p2))
       (magellan_loop tc (gps_input_write p) (g, p1))"
  using assms by (auto simp: gps_process_buffer_def Let_def)

lemma magellan_valid_mutation:
  assumes "2 \<le> i" and "i < n - 2" and "v \<noteq> pkt i" and "magellan_valid pkt n"
  shows "\<not> magellan_valid (pkt(i := v)) n"
proof
  assume "magellan_valid (pkt(i := v)) n"
  with assms(2) have "magellan_checksum (pkt(i := v)) n = pkt (n - 2)"
    by (simp add: magellan_valid_def)
  with assms(4) have "magellan_checksum (pkt(i := v)) n = magellan_checksum pkt n"
    by (simp add: magellan_valid_def)
  with magellan_checksum_mutation [of i n v pkt] assms(1,2,3) show False by simp
qed

lemma packet_bytes_map:
  "unat (gps_packet_length q) = m \<Longrightarrow> packet_bytes q = map (gps_packet q) [0..<m]"
  by (simp add: packet_bytes_def)

lemma gps_process_buffer_invalid:
  assumes ne: "gps_input_read p \<noteq> gps_input_write p"
    and sync: "sync_loop (gps_input_write p) ([], p) = (ev1, p1)"
    and ty: "gps_packet_type p1 \<in> {MAGELLAN_TIME_PACKET, MAGELLAN_STATUS_PACKET}"
    and due: "sentence_due p1 (gps_input_write p)"
    and s: "s = pending_sentence p1 (gps_input_write p)"
    and m: "m = unat (gps_magellan_length p1)"
    and bad: "\<not> magellan_valid s m"
  shows "\<exists>p'. gps_process_buffer tc (g, p) =
            Some (False,
                  ev1 @ [if s (m - 1) = 0x0A
                         then Debug_checksum_failed (magellan_checksum s m) (s (m - 2))
                         else Debug_string gps_msg_bad_packet,
                         Debug_raw (map s [0..<m])], g, p')
        \<and> gps_magellan_locked p' = gps_magellan_locked p
        \<and> gps_packet_type p' = UNKNOWN_PACKET \<and> gps_packet_length p' = 0"
proof -
  let ?w = "gps_input_write p"
  have lk: "gps_magellan_locked p1 = gps_magellan_locked p"
    using sync_loop_frame [of ?w "([], p)"] sync by simp
  from due m have "unat (gps_packet_length p1) < m"
    and "m - unat (gps_packet_length p1) \<le> length (unread p1 ?w)"
    by (simp_all add: sentence_due_def)
  from magellan_loop_completes [of "(g, p1)" "unat (gps_packet_length p1)" m ?w tc] this m
  obtain q where loop: "magellan_loop tc ?w (g, p1) = magellan_packet_end tc (g, q)"
    and pk: "gps_packet q = s" and len: "unat (gps_packet_length q) = m"
    and qlk: "gps_magellan_locked q = gps_magellan_locked p1"
    unfolding s pending_sentence_def by auto
  from bad pk len have "\<not> magellan_valid (gps_packet q) (unat (gps_packet_length q))" by simp
  from magellan_packet_end_invalid [OF this, of tc g] pk len packet_bytes_map [OF len]
  have "magellan_packet_end tc (g, q) =
      Some (False,
            [if s (m - 1) = 0x0A
             then Debug_checksum_failed (magellan_checksum s m) (s (m - 2))
             else Debug_string gps_msg_bad_packet,
             Debug_raw (map s [0..<m])], g, reset_packet q)"
    by simp
  with loop gps_process_buffer_magellan_run [OF ne sync ty, of tc g]
  have "gps_process_buffer tc (g, p) =
      Some (False,
            ev1 @ [if s (m - 1) = 0x0A
                   then Debug_checksum_failed (magellan_checksum s m) (s (m - 2))
                   else Debug_string gps_msg_bad_packet,
                   Debug_raw (map s [0..<m])], g, reset_packet q)"
    by simp
  moreover have "gps_magellan_locked (reset_packet q) = gps_magellan_locked p"
    "gps_packet_type (reset_packet q) = UNKNOWN_PACKET" "gps_packet_length (reset_packet q) = 0"
    using qlk lk by (simp_all add: reset_packet_def)
  ultimately show ?thesis by blast
qed

text \<open>
  C4. Changing any single byte from the sentence-type byte up to the byte before the
  checksum (the payload lies inside this span) changes the computed checksum, so a
  sentence that passed the two tests fails them after the change. Whenever a call of
  \<^verbatim>\<open>gps_process_buffer\<close> completes a Magellan sentence (time or status) that fails the
  line-feed test or the checksum test, the call returns, its result is \<^verbatim>\<open>FALSE\<close>, it logs
  the rejection and the raw sentence, and it leaves all globals, the timestamp among them,
  and the locked flag as they were; the accumulator is reset.
\<close>

theorem corrupt_sentence_rejected:
  "(2 \<le> i \<and> i < n - 2 \<and> v \<noteq> pkt i \<longrightarrow>
      magellan_checksum (pkt(i := v)) n \<noteq> magellan_checksum pkt n
      \<and> (magellan_valid pkt n \<longrightarrow> \<not> magellan_valid (pkt(i := v)) n))
 \<and> (gps_input_read p \<noteq> gps_input_write p
    \<and> sync_loop (gps_input_write p) ([], p) = (ev1, p1)
    \<and> gps_packet_type p1 \<in> {MAGELLAN_TIME_PACKET, MAGELLAN_STATUS_PACKET}
    \<and> sentence_due p1 (gps_input_write p)
    \<and> s = pending_sentence p1 (gps_input_write p)
    \<and> m = unat (gps_magellan_length p1)
    \<and> \<not> magellan_valid s m \<longrightarrow>
      (\<exists>p'. gps_process_buffer tc (g, p) =
              Some (False,
                    ev1 @ [if s (m - 1) = 0x0A
                           then Debug_checksum_failed (magellan_checksum s m) (s (m - 2))
                           else Debug_string gps_msg_bad_packet,
                           Debug_raw (map s [0..<m])], g, p')
          \<and> gps_magellan_locked p' = gps_magellan_locked p
          \<and> gps_packet_type p' = UNKNOWN_PACKET \<and> gps_packet_length p' = 0))"
proof (intro conjI impI)
  assume a: "2 \<le> i \<and> i < n - 2 \<and> v \<noteq> pkt i"
  then show "magellan_checksum (pkt(i := v)) n \<noteq> magellan_checksum pkt n"
    by (simp add: magellan_checksum_mutation)
  assume "magellan_valid pkt n"
  with a show "\<not> magellan_valid (pkt(i := v)) n" by (simp add: magellan_valid_mutation)
next
  assume "gps_input_read p \<noteq> gps_input_write p
    \<and> sync_loop (gps_input_write p) ([], p) = (ev1, p1)
    \<and> gps_packet_type p1 \<in> {MAGELLAN_TIME_PACKET, MAGELLAN_STATUS_PACKET}
    \<and> sentence_due p1 (gps_input_write p)
    \<and> s = pending_sentence p1 (gps_input_write p)
    \<and> m = unat (gps_magellan_length p1)
    \<and> \<not> magellan_valid s m"
  then show "\<exists>p'. gps_process_buffer tc (g, p) =
              Some (False,
                    ev1 @ [if s (m - 1) = 0x0A
                           then Debug_checksum_failed (magellan_checksum s m) (s (m - 2))
                           else Debug_string gps_msg_bad_packet,
                           Debug_raw (map s [0..<m])], g, p')
          \<and> gps_magellan_locked p' = gps_magellan_locked p
          \<and> gps_packet_type p' = UNKNOWN_PACKET \<and> gps_packet_length p' = 0"
    using gps_process_buffer_invalid [of p ev1 p1 s m tc g] by blast
qed

theorem corrupt_sentence_rejected_witness:
  "2 \<le> (5::nat) \<and> (5::nat) < 13 - 2 \<and> 31 \<noteq> packet_of time_sentence 5
   \<and> magellan_valid (packet_of time_sentence) 13
   \<and> magellan_checksum ((packet_of time_sentence)(5 := 31)) 13
        \<noteq> magellan_checksum (packet_of time_sentence) 13
   \<and> \<not> magellan_valid ((packet_of time_sentence)(5 := 31)) 13
   \<and> gps_input_read (snd corrupt_input) \<noteq> gps_input_write (snd corrupt_input)
   \<and> gps_packet_type (snd (sync_loop (gps_input_write (snd corrupt_input))
         ([], snd corrupt_input))) = MAGELLAN_TIME_PACKET
   \<and> sentence_due (snd (sync_loop (gps_input_write (snd corrupt_input))
         ([], snd corrupt_input))) (gps_input_write (snd corrupt_input))
   \<and> (\<exists>p'. gps_process_buffer id corrupt_input =
          Some (False,
                [Debug_checksum_failed 0x9D 0x9C, Debug_raw (time_sentence[5 := 31])],
                fst corrupt_input, p')
        \<and> gps_magellan_locked p' = gps_magellan_locked (snd corrupt_input)
        \<and> gps_packet_type p' = UNKNOWN_PACKET \<and> gps_packet_length p' = 0)
   \<and> gps_input_read (snd bad_feed_input) \<noteq> gps_input_write (snd bad_feed_input)
   \<and> gps_packet_type (snd (sync_loop (gps_input_write (snd bad_feed_input))
         ([], snd bad_feed_input))) = MAGELLAN_TIME_PACKET
   \<and> sentence_due (snd (sync_loop (gps_input_write (snd bad_feed_input))
         ([], snd bad_feed_input))) (gps_input_write (snd bad_feed_input))
   \<and> (\<exists>p'. gps_process_buffer id bad_feed_input =
          Some (False,
                [Debug_string gps_msg_bad_packet, Debug_raw (time_sentence[12 := 0x0D])],
                fst bad_feed_input, p')
        \<and> gps_magellan_locked p' = gps_magellan_locked (snd bad_feed_input)
        \<and> gps_packet_type p' = UNKNOWN_PACKET \<and> gps_packet_length p' = 0)"
proof -
  let ?a = "snd corrupt_input" and ?b = "snd bad_feed_input"
  let ?wa = "gps_input_write ?a" and ?wb = "gps_input_write ?b"
  let ?pa = "snd (sync_loop ?wa ([], ?a))" and ?pb = "snd (sync_loop ?wb ([], ?b))"
  let ?sa = "pending_sentence ?pa ?wa" and ?sb = "pending_sentence ?pb ?wb"
  have i: "2 \<le> (5::nat) \<and> (5::nat) < 13 - 2 \<and> 31 \<noteq> packet_of time_sentence 5"
    by (simp add: packet_of_def time_sentence_def)
  have ok: "magellan_valid (packet_of time_sentence) 13" by code_simp
  have nea: "gps_input_read ?a \<noteq> ?wa" by code_simp
  have eva: "fst (sync_loop ?wa ([], ?a)) = []" by code_simp
  have tya: "gps_packet_type ?pa = MAGELLAN_TIME_PACKET" by code_simp
  have duea: "sentence_due ?pa ?wa" by code_simp
  have ma: "unat (gps_magellan_length ?pa) = 13" by code_simp
  have bada: "\<not> magellan_valid ?sa 13" by code_simp
  have fa: "?sa 12 = 0x0A" "magellan_checksum ?sa 13 = 0x9D" "?sa 11 = 0x9C"
    "map ?sa [0..<13] = time_sentence[5 := 31]" by code_simp+
  have neb: "gps_input_read ?b \<noteq> ?wb" by code_simp
  have evb: "fst (sync_loop ?wb ([], ?b)) = []" by code_simp
  have tyb: "gps_packet_type ?pb = MAGELLAN_TIME_PACKET" by code_simp
  have dueb: "sentence_due ?pb ?wb" by code_simp
  have mb: "unat (gps_magellan_length ?pb) = 13" by code_simp
  have badb: "\<not> magellan_valid ?sb 13" by code_simp
  have fb: "?sb 12 \<noteq> 0x0A" "map ?sb [0..<13] = time_sentence[12 := 0x0D]" by code_simp+
  have synca: "sync_loop ?wa ([], ?a) = ([], ?pa)" using eva by (simp add: prod_eq_iff)
  have syncb: "sync_loop ?wb ([], ?b) = ([], ?pb)" using evb by (simp add: prod_eq_iff)
  from corrupt_sentence_rejected
         [of 5 13 31 "packet_of time_sentence" ?a "[]" ?pa ?sa 13 id "fst corrupt_input"]
       i ok nea synca tya duea ma bada
  have a: "magellan_checksum ((packet_of time_sentence)(5 := 31)) 13
        \<noteq> magellan_checksum (packet_of time_sentence) 13"
    "\<not> magellan_valid ((packet_of time_sentence)(5 := 31)) 13"
    "\<exists>p'. gps_process_buffer id corrupt_input =
          Some (False,
                [Debug_checksum_failed 0x9D 0x9C, Debug_raw (time_sentence[5 := 31])],
                fst corrupt_input, p')
        \<and> gps_magellan_locked p' = gps_magellan_locked (snd corrupt_input)
        \<and> gps_packet_type p' = UNKNOWN_PACKET \<and> gps_packet_length p' = 0"
    by (simp_all add: fa)
  from corrupt_sentence_rejected
         [of 5 13 31 "packet_of time_sentence" ?b "[]" ?pb ?sb 13 id "fst bad_feed_input"]
       neb syncb tyb dueb mb badb
  have b: "\<exists>p'. gps_process_buffer id bad_feed_input =
          Some (False,
                [Debug_string gps_msg_bad_packet, Debug_raw (time_sentence[12 := 0x0D])],
                fst bad_feed_input, p')
        \<and> gps_magellan_locked p' = gps_magellan_locked (snd bad_feed_input)
        \<and> gps_packet_type p' = UNKNOWN_PACKET \<and> gps_packet_length p' = 0"
    by (simp add: fb)
  from i ok a nea tya duea b neb tyb dueb show ?thesis by blast
qed

text \<open>
  What a call does with a sentence that passes both tests, and what no call does to the
  locked flag.
\<close>

lemma gps_process_buffer_status:
  assumes ne: "gps_input_read p \<noteq> gps_input_write p"
    and sync: "sync_loop (gps_input_write p) ([], p) = (ev1, p1)"
    and ty: "gps_packet_type p1 = MAGELLAN_STATUS_PACKET"
    and due: "sentence_due p1 (gps_input_write p)"
    and s: "s = pending_sentence p1 (gps_input_write p)"
    and m: "m = unat (gps_magellan_length p1)"
    and ok: "magellan_valid s m"
  shows "\<exists>p'. gps_process_buffer tc (g, p) =
            Some (gps_magellan_locked p \<noteq> (s 13 = 6), ev1, g, p')
        \<and> gps_magellan_locked p' = (s 13 = 6)
        \<and> gps_packet_type p' = UNKNOWN_PACKET \<and> gps_packet_length p' = 0"
proof -
  let ?w = "gps_input_write p"
  have lk: "gps_magellan_locked p1 = gps_magellan_locked p"
    using sync_loop_frame [of ?w "([], p)"] sync by simp
  from due m have "unat (gps_packet_length p1) < m"
    and "m - unat (gps_packet_length p1) \<le> length (unread p1 ?w)"
    by (simp_all add: sentence_due_def)
  from magellan_loop_completes [of "(g, p1)" "unat (gps_packet_length p1)" m ?w tc] this m
  obtain q where loop: "magellan_loop tc ?w (g, p1) = magellan_packet_end tc (g, q)"
    and pk: "gps_packet q = s" and len: "unat (gps_packet_length q) = m"
    and qty: "gps_packet_type q = gps_packet_type p1"
    and qlk: "gps_magellan_locked q = gps_magellan_locked p1"
    unfolding s pending_sentence_def by auto
  from ok pk len have v: "magellan_valid (gps_packet q) (unat (gps_packet_length q))" by simp
  from qty ty have t: "gps_packet_type q = MAGELLAN_STATUS_PACKET" by simp
  let ?q = "reset_packet (q\<lparr>gps_magellan_locked := (gps_packet q 13 = 6)\<rparr>)"
  from magellan_packet_end_status [OF v t, of tc g] loop
       gps_process_buffer_magellan_run [OF ne sync, of tc g] ty pk qlk lk
  have "gps_process_buffer tc (g, p) =
      Some (gps_magellan_locked p \<noteq> (s 13 = 6), ev1, g, ?q)"
    by simp
  moreover have "gps_magellan_locked ?q = (s 13 = 6)"
    "gps_packet_type ?q = UNKNOWN_PACKET" "gps_packet_length ?q = 0"
    using pk by (simp_all add: reset_packet_def)
  ultimately show ?thesis by blast
qed

lemma magellan_timestamp_fields:
  "locked (magellan_timestamp pkt date l) = l
   \<and> hours (magellan_timestamp pkt date l) = pkt 4
   \<and> minutes (magellan_timestamp pkt date l) = pkt 5
   \<and> seconds (magellan_timestamp pkt date l) = pkt 6"
  by (cases date) (simp add: magellan_timestamp_def)

lemma gps_process_buffer_time:
  assumes ne: "gps_input_read p \<noteq> gps_input_write p"
    and sync: "sync_loop (gps_input_write p) ([], p) = (ev1, p1)"
    and ty: "gps_packet_type p1 = MAGELLAN_TIME_PACKET"
    and due: "sentence_due p1 (gps_input_write p)"
    and s: "s = pending_sentence p1 (gps_input_write p)"
    and m: "m = unat (gps_magellan_length p1)"
    and ok: "magellan_valid s m"
    and date: "epoch_correction (s 7) (s 8) (raw_year (s 9) (s 10)) = Some date"
    and ts: "ts = magellan_timestamp s date (gps_magellan_locked p)"
  shows "\<exists>p'. gps_process_buffer tc (g, p) =
            Some (True, ev1 @ fst (set_time tc ts g), snd (set_time tc ts g), p')
        \<and> gps_magellan_locked p' = gps_magellan_locked p
        \<and> gps_packet_type p' = UNKNOWN_PACKET \<and> gps_packet_length p' = 0"
proof -
  let ?w = "gps_input_write p"
  have lk: "gps_magellan_locked p1 = gps_magellan_locked p"
    using sync_loop_frame [of ?w "([], p)"] sync by simp
  from due m have "unat (gps_packet_length p1) < m"
    and "m - unat (gps_packet_length p1) \<le> length (unread p1 ?w)"
    by (simp_all add: sentence_due_def)
  from magellan_loop_completes [of "(g, p1)" "unat (gps_packet_length p1)" m ?w tc] this m
  obtain q where loop: "magellan_loop tc ?w (g, p1) = magellan_packet_end tc (g, q)"
    and pk: "gps_packet q = s" and len: "unat (gps_packet_length q) = m"
    and qty: "gps_packet_type q = gps_packet_type p1"
    and qlk: "gps_magellan_locked q = gps_magellan_locked p1"
    unfolding s pending_sentence_def by auto
  from ok pk len have v: "magellan_valid (gps_packet q) (unat (gps_packet_length q))" by simp
  from qty ty have t: "gps_packet_type q = MAGELLAN_TIME_PACKET" by simp
  from date pk have d: "epoch_correction (gps_packet q 7) (gps_packet q 8)
           (raw_year (gps_packet q 9) (gps_packet q 10)) = Some date" by simp
  from magellan_packet_end_time [OF v t d, of tc g] loop
       gps_process_buffer_magellan_run [OF ne sync, of tc g] ty pk qlk lk ts
  have "gps_process_buffer tc (g, p) =
      Some (True, ev1 @ fst (set_time tc ts g), snd (set_time tc ts g), reset_packet q)"
    by simp
  moreover have "gps_magellan_locked (reset_packet q) = gps_magellan_locked p"
    "gps_packet_type (reset_packet q) = UNKNOWN_PACKET" "gps_packet_length (reset_packet q) = 0"
    using qlk lk by (simp_all add: reset_packet_def)
  ultimately show ?thesis by blast
qed

lemma gps_process_buffer_waits:
  assumes ne: "gps_input_read p \<noteq> gps_input_write p"
    and sync: "sync_loop (gps_input_write p) ([], p) = (ev1, p1)"
    and ty: "gps_packet_type p1 \<in> {MAGELLAN_TIME_PACKET, MAGELLAN_STATUS_PACKET}"
    and k: "unat (gps_packet_length p1) < unat (gps_magellan_length p1)"
    and few: "length (unread p1 (gps_input_write p))
                < unat (gps_magellan_length p1) - unat (gps_packet_length p1)"
  shows "\<exists>p'. gps_process_buffer tc (g, p) = Some (False, ev1, g, p')
        \<and> gps_magellan_locked p' = gps_magellan_locked p"
proof -
  let ?w = "gps_input_write p"
  have lk: "gps_magellan_locked p1 = gps_magellan_locked p"
    using sync_loop_frame [of ?w "([], p)"] sync by simp
  from magellan_loop_waits
         [of "(g, p1)" "unat (gps_packet_length p1)" "unat (gps_magellan_length p1)" ?w tc]
       k few
  obtain p' where "magellan_loop tc ?w (g, p1) = Some (False, [], g, p')"
    and "gps_magellan_locked p' = gps_magellan_locked p1"
    by auto
  with gps_process_buffer_magellan_run [OF ne sync ty, of tc g] lk show ?thesis by simp
qed

lemma gps_process_buffer_flag:
  "(gps_process_buffer tc (g, p) = Some (r, ev, g', p')
    \<and> gps_packet_type (snd (sync_loop (gps_input_write p) ([], p))) = MAGELLAN_TIME_PACKET
    \<and> Send_timestamp \<in> set ev \<longrightarrow>
      locked (gps_last_timestamp g') = gps_magellan_locked p
      \<and> gps_magellan_locked p' = gps_magellan_locked p)
 \<and> (gps_process_buffer tc (g, p) = Some (r, ev, g', p')
    \<and> gps_magellan_locked p' \<noteq> gps_magellan_locked p \<longrightarrow>
      gps_packet_type (snd (sync_loop (gps_input_write p) ([], p))) = MAGELLAN_STATUS_PACKET
      \<and> magellan_valid (gps_packet p') (unat (gps_magellan_length p'))
      \<and> gps_magellan_locked p' = (gps_packet p' 13 = 6)
      \<and> r \<and> g' = g \<and> Send_timestamp \<notin> set ev)"
proof -
  let ?s = "sync_loop (gps_input_write p) ([], p)"
  let ?p1 = "snd ?s"
  have p1: "gps_magellan_locked ?p1 = gps_magellan_locked p"
    and ev1: "Send_timestamp \<notin> set (fst ?s)"
    using sync_loop_frame [of "gps_input_write p" "([], p)"] by auto
  have decode: "\<exists>q ev2. magellan_packet_end tc (g, q) = Some (r, ev2, g', p')
        \<and> ev = fst ?s @ ev2
        \<and> gps_packet_length q = gps_magellan_length q
        \<and> gps_packet_type q = gps_packet_type ?p1
        \<and> gps_magellan_locked q = gps_magellan_locked p"
    if run: "gps_process_buffer tc (g, p) = Some (r, ev, g', p')"
      and ty: "gps_packet_type ?p1 \<in> {MAGELLAN_TIME_PACKET, MAGELLAN_STATUS_PACKET}"
      and ch: "Send_timestamp \<in> set ev \<or> gps_magellan_locked p' \<noteq> gps_magellan_locked p"
  proof -
    have ne: "gps_input_read p \<noteq> gps_input_write p"
    proof
      assume "gps_input_read p = gps_input_write p"
      with run have "ev = [] \<and> p' = p" by (simp add: gps_process_buffer_def Let_def)
      with ch show False by simp
    qed
    from gps_process_buffer_magellan [OF run ne ty] obtain ev2 where
      loop: "magellan_loop tc (gps_input_write p) (g, ?p1) = Some (r, ev2, g', p')"
      and ev: "ev = fst ?s @ ev2" by blast
    from magellan_loop_cases [OF loop] show ?thesis
    proof
      assume "\<not> r \<and> ev2 = [] \<and> g' = fst (g, ?p1)
        \<and> gps_magellan_locked p' = gps_magellan_locked (snd (g, ?p1))"
      with ch ev ev1 p1 show ?thesis by simp
    next
      assume "\<exists>q. magellan_packet_end tc (fst (g, ?p1), q) = Some (r, ev2, g', p')
           \<and> gps_packet_length q = gps_magellan_length (snd (g, ?p1))
           \<and> gps_magellan_length q = gps_magellan_length (snd (g, ?p1))
           \<and> gps_packet_type q = gps_packet_type (snd (g, ?p1))
           \<and> gps_magellan_locked q = gps_magellan_locked (snd (g, ?p1))"
      with ev p1 show ?thesis by auto
    qed
  qed
  show ?thesis
  proof (intro conjI impI)
    assume a: "gps_process_buffer tc (g, p) = Some (r, ev, g', p')
      \<and> gps_packet_type ?p1 = MAGELLAN_TIME_PACKET \<and> Send_timestamp \<in> set ev"
    with decode obtain q ev2 where
      q: "magellan_packet_end tc (g, q) = Some (r, ev2, g', p')"
      and ev: "ev = fst ?s @ ev2" and lk: "gps_magellan_locked q = gps_magellan_locked p"
      by auto
    from a ev ev1 have "Send_timestamp \<in> set ev2" by simp
    with magellan_packet_end_cases [OF q] lk
    show "locked (gps_last_timestamp g') = gps_magellan_locked p"
      and "gps_magellan_locked p' = gps_magellan_locked p"
      by simp_all
  next
    assume a: "gps_process_buffer tc (g, p) = Some (r, ev, g', p')
      \<and> gps_magellan_locked p' \<noteq> gps_magellan_locked p"
    have ty: "gps_packet_type ?p1 \<in> {MAGELLAN_TIME_PACKET, MAGELLAN_STATUS_PACKET}"
      using a gps_process_buffer_other [of tc g p r ev g' p'] by blast
    with a decode obtain q ev2 where
      q: "magellan_packet_end tc (g, q) = Some (r, ev2, g', p')"
      and ev: "ev = fst ?s @ ev2" and len: "gps_packet_length q = gps_magellan_length q"
      and qt: "gps_packet_type q = gps_packet_type ?p1"
      and lk: "gps_magellan_locked q = gps_magellan_locked p"
      by auto
    from magellan_packet_end_cases [OF q] a lk len qt ev ev1
    show "gps_packet_type ?p1 = MAGELLAN_STATUS_PACKET"
      and "magellan_valid (gps_packet p') (unat (gps_magellan_length p'))"
      and "gps_magellan_locked p' = (gps_packet p' 13 = 6)"
      and "r" and "g' = g" and "Send_timestamp \<notin> set ev"
      by auto
  qed
qed

text \<open>
  Along any interleaving of receive interrupts and calls, the accumulator stays well formed
  and the locked flag is the value decoded from the most recently accepted status sentence.
\<close>

lemma sync_loop_ok:
  "accumulator_ok (snd s) \<Longrightarrow> accumulator_ok (snd (sync_loop tw s))"
proof (induction tw s rule: sync_loop.induct)
  case (1 tw ev p)
  from "1.prems" have ok: "accumulator_ok p" by simp
  show ?case
  proof (cases "gps_packet_type p = UNKNOWN_PACKET \<and> gps_input_read p \<noteq> tw")
    case False
    then show ?thesis using ok by (auto simp: sync_loop.simps [of tw ev p])
  next
    case scan: True
    with ok have len: "gps_packet_length p = 0" by (simp add: accumulator_ok_def)
    have nxt: "accumulator_ok (sync_next p)"
      using ok by (simp add: accumulator_ok_def sync_next_def)
    show ?thesis
    proof (cases "magellan_preamble p")
      case mgl: True
      show ?thesis
      proof (cases "gps_input_buffer p (gps_input_read p) = 0x41
                 \<or> gps_input_buffer p (gps_input_read p) = 0x48")
        case True
        with scan mgl len show ?thesis
          by (auto simp: sync_loop.simps [of tw ev p] magellan_synced_def accumulator_ok_def)
      next
        case False
        with scan mgl "1.IH"(1) nxt show ?thesis
          by (simp add: sync_loop.simps [of tw ev p])
      qed
    next
      case nomgl: False
      show ?thesis
      proof (cases "trimble_preamble p")
        case True
        with scan nomgl show ?thesis
          by (simp add: sync_loop.simps [of tw ev p] accumulator_ok_def)
      next
        case False
        with scan nomgl "1.IH"(2) nxt show ?thesis
          by (simp add: sync_loop.simps [of tw ev p])
      qed
    qed
  qed
qed

lemma trimble_loop_ok:
  "trimble_loop tc tw s = (r, ev, g', p') \<Longrightarrow> gps_packet_type (snd s) = TRIMBLE_PACKET \<Longrightarrow>
     accumulator_ok p'"
proof (induction tc tw s rule: trimble_loop.induct)
  case (1 tc tw g p)
  let ?p1 = "skip_padding p"
  let ?p2 = "store_byte ?p1"
  from "1.prems"(2) have ty: "gps_packet_type p = TRIMBLE_PACKET" by simp
  then have keep: "gps_packet_type ?p1 = TRIMBLE_PACKET" "gps_packet_type ?p2 = TRIMBLE_PACKET"
    by (simp_all add: skip_padding_def store_byte_def)
  show ?case
  proof (cases "gps_input_read p \<noteq> tw \<and> gps_input_read ?p1 \<noteq> tw")
    case False
    with "1.prems"(1) keep ty show ?thesis
      by (auto simp: trimble_loop.simps [of tc tw g p] Let_def accumulator_ok_def
          split: if_splits)
  next
    case more: True
    show ?thesis
    proof (cases "gps_packet_length ?p2 = 21")
      case True
      with more "1.prems"(1) have "trimble_packet_end tc (g, ?p2) = (r, ev, g', p')"
        by (simp add: trimble_loop.simps [of tc tw g p] Let_def)
      then have "p' = reset_packet ?p2"
        by (auto simp: trimble_packet_end_def split: if_splits prod.splits)
      then show ?thesis by (simp add: reset_packet_def accumulator_ok_def)
    next
      case False
      let ?p3 = "?p2\<lparr>gps_input_read := gps_input_read ?p2 + 1\<rparr>"
      from more False "1.prems"(1) have "trimble_loop tc tw (g, ?p3) = (r, ev, g', p')"
        by (simp add: trimble_loop.simps [of tc tw g p] Let_def)
      from "1.IH" [OF _ refl _ refl False this] more keep show ?thesis by simp
    qed
  qed
qed

lemma magellan_packet_end_resets:
  assumes "magellan_packet_end tc (g, q) = Some (r, ev, g', p')"
  shows "gps_packet_type p' = UNKNOWN_PACKET \<and> gps_packet_length p' = 0"
  using assms
  by (auto simp: magellan_packet_end_def Let_def reset_packet_def
      split: if_splits Option.bind_splits prod.splits)

lemma gps_process_buffer_step:
  assumes ok: "accumulator_ok p"
    and run: "gps_process_buffer tc (g, p) = Some (r, ev, g', p')"
  shows "accumulator_ok p'
    \<and> gps_magellan_locked p' =
        (case accepted_status p of Some b \<Rightarrow> b | None \<Rightarrow> gps_magellan_locked p)"
proof (cases "gps_input_read p = gps_input_write p")
  case True
  then have "accepted_status p = None" by (simp add: accepted_status_def Let_def)
  with True run ok show ?thesis by (simp add: gps_process_buffer_def Let_def)
next
  case ne: False
  let ?w = "gps_input_write p"
  obtain ev1 p1 where sync: "sync_loop ?w ([], p) = (ev1, p1)"
    by (cases "sync_loop ?w ([], p)")
  have ok1: "accumulator_ok p1" using sync_loop_ok [of "([], p)" ?w] ok sync by simp
  have p1: "p1 = snd (sync_loop ?w ([], p))" using sync by simp
  show ?thesis
  proof (cases "gps_packet_type p1 \<in> {MAGELLAN_TIME_PACKET, MAGELLAN_STATUS_PACKET}")
    case other: False
    then have none: "accepted_status p = None"
      using sync by (auto simp: accepted_status_def Let_def)
    have lk: "gps_magellan_locked p' = gps_magellan_locked p"
      using gps_process_buffer_other [OF run] other p1 by simp
    from other have "gps_packet_type p1 = UNKNOWN_PACKET \<or> gps_packet_type p1 = TRIMBLE_PACKET"
      by (cases "gps_packet_type p1") simp_all
    then have "accumulator_ok p'"
    proof
      assume "gps_packet_type p1 = UNKNOWN_PACKET"
      with run ne sync ok1 show ?thesis by (simp add: gps_process_buffer_def Let_def)
    next
      assume t: "gps_packet_type p1 = TRIMBLE_PACKET"
      obtain r2 ev2 g2 p2 where loop: "trimble_loop tc ?w (g, p1) = (r2, ev2, g2, p2)"
        by (cases "trimble_loop tc ?w (g, p1)")
      with run ne sync t have "p' = p2" by (simp add: gps_process_buffer_def Let_def)
      with trimble_loop_ok [OF loop] t show ?thesis by simp
    qed
    with lk none show ?thesis by simp
  next
    case mgl: True
    with ok1 have km: "unat (gps_packet_length p1) < unat (gps_magellan_length p1)"
      by (auto simp: accumulator_ok_def)
    note gpb = gps_process_buffer_magellan_run [OF ne sync mgl, of tc g]
    show ?thesis
    proof (cases "sentence_due p1 ?w")
      case False
      with km have few: "length (unread p1 ?w)
          < unat (gps_magellan_length p1) - unat (gps_packet_length p1)"
        by (simp add: sentence_due_def)
      from False have none: "accepted_status p = None"
        using sync by (auto simp: accepted_status_def Let_def)
      from gps_process_buffer_waits [OF ne sync mgl km few, of tc g] run
      have lk: "gps_magellan_locked p' = gps_magellan_locked p" by auto
      from magellan_loop_waits
             [of "(g, p1)" "unat (gps_packet_length p1)" "unat (gps_magellan_length p1)" ?w tc]
           km few
      obtain q where "magellan_loop tc ?w (g, p1) = Some (False, [], g, q)"
        and "gps_packet_type q = gps_packet_type p1"
        and "unat (gps_packet_length q) < unat (gps_magellan_length q)"
        by auto
      with gpb run mgl have "accumulator_ok p'" by (auto simp: accumulator_ok_def)
      with lk none show ?thesis by simp
    next
      case due: True
      let ?s = "pending_sentence p1 ?w"
      let ?m = "unat (gps_magellan_length p1)"
      from due have "unat (gps_packet_length p1) < ?m"
        and "?m - unat (gps_packet_length p1) \<le> length (unread p1 ?w)"
        by (simp_all add: sentence_due_def)
      from magellan_loop_completes [of "(g, p1)" "unat (gps_packet_length p1)" ?m ?w tc] this
      obtain q where loop: "magellan_loop tc ?w (g, p1) = magellan_packet_end tc (g, q)"
        by auto
      moreover from gps_process_buffer_magellan [OF run ne] mgl p1
      obtain ev2 where "magellan_loop tc ?w (g, p1) = Some (r, ev2, g', p')" by auto
      ultimately have "magellan_packet_end tc (g, q) = Some (r, ev2, g', p')" by simp
      from magellan_packet_end_resets [OF this] have ok': "accumulator_ok p'"
        by (simp add: accumulator_ok_def)
      show ?thesis
      proof (cases "magellan_valid ?s ?m \<and> gps_packet_type p1 = MAGELLAN_STATUS_PACKET")
        case True
        then have acc: "accepted_status p = Some (?s 13 = 6)"
          using ne due sync by (simp add: accepted_status_def Let_def)
        from True gps_process_buffer_status [OF ne sync _ due refl refl, of tc g] run
        have "gps_magellan_locked p' = (?s 13 = 6)" by auto
        with ok' acc show ?thesis by simp
      next
        case False
        then have none: "accepted_status p = None"
          using sync by (auto simp: accepted_status_def Let_def)
        have "gps_magellan_locked p' = gps_magellan_locked p"
        proof (cases "magellan_valid ?s ?m")
          case bad: False
          from gps_process_buffer_invalid [OF ne sync mgl due refl refl bad, of tc g] run
          show ?thesis by auto
        next
          case True
          with False have nst: "gps_packet_type p1 \<noteq> MAGELLAN_STATUS_PACKET" by simp
          show ?thesis
          proof (rule ccontr)
            assume "gps_magellan_locked p' \<noteq> gps_magellan_locked p"
            with gps_process_buffer_flag [of tc g p r ev g' p'] run
            have "gps_packet_type (snd (sync_loop ?w ([], p))) = MAGELLAN_STATUS_PACKET"
              by blast
            with nst p1 show False by simp
          qed
        qed
        with ok' none show ?thesis by simp
      qed
    qed
  qed
qed

lemma USART1_RX_vect_ok:
  "accumulator_ok (snd (USART1_RX_vect b (g, p))) = accumulator_ok p
   \<and> gps_magellan_locked (snd (USART1_RX_vect b (g, p))) = gps_magellan_locked p"
  by (simp add: USART1_RX_vect_def Let_def accumulator_ok_def)

lemma track_status_flag:
  "track_status tc xs s = Some (lk', g', p') \<Longrightarrow> accumulator_ok (snd (snd s)) \<Longrightarrow>
   gps_magellan_locked (snd (snd s)) = fst s \<Longrightarrow>
   accumulator_ok p' \<and> gps_magellan_locked p' = lk'"
proof (induction tc xs s rule: track_status.induct)
  case (1 tc s)
  then show ?case by auto
next
  case (2 tc b xs lk g p)
  obtain g1 p1 where rx: "USART1_RX_vect b (g, p) = (g1, p1)"
    by (cases "USART1_RX_vect b (g, p)")
  with USART1_RX_vect_ok [of b g p] "2.prems"
  have "accumulator_ok p1" "gps_magellan_locked p1 = lk" by simp_all
  with "2.IH" "2.prems"(1) rx show ?case by simp
next
  case (3 tc xs lk g p)
  from "3.prems"(1) obtain r ev g1 p1 where
    run: "gps_process_buffer tc (g, p) = Some (r, ev, g1, p1)"
    by (auto split: option.splits)
  let ?l = "case accepted_status p of Some b \<Rightarrow> b | None \<Rightarrow> lk"
  from run "3.prems"(1) have rest: "track_status tc xs (?l, g1, p1) = Some (lk', g', p')"
    by simp
  from gps_process_buffer_step [OF _ run] "3.prems"(2,3)
  have "accumulator_ok p1" "gps_magellan_locked p1 = ?l"
    by (simp_all split: option.splits)
  with "3.IH" [OF run refl refl refl rest] show ?case by simp
qed

lemma track_status_startup:
  assumes "track_status tc xs (False, g0, statics_init) = Some (lk, g, p)"
  shows "accumulator_ok p \<and> gps_magellan_locked p = lk"
proof -
  have "accumulator_ok (snd (snd (False, g0, statics_init)))"
    and "gps_magellan_locked (snd (snd (False, g0, statics_init))) = fst (False, g0, statics_init)"
    by (simp_all add: accumulator_ok_def statics_init_def)
  with track_status_flag [OF assms] show ?thesis by simp
qed

text \<open>
  The run \<open>lock_schedule\<close>, step by step: the first call accepts the status sentence that
  reports lock, the second the one that reports no lock.
\<close>

lemma track_status_receive:
  "track_status tc (map Receive bs @ xs) (lk, s) = track_status tc xs (lk, receive bs s)"
proof (induction bs arbitrary: s)
  case Nil
  then show ?case by (simp add: receive_def)
next
  case (Cons b bs)
  obtain g p where s: "s = (g, p)" by (cases s)
  show ?case unfolding s using Cons [of "USART1_RX_vect b (g, p)"] by (simp add: receive_def)
qed

lemma track_status_poll:
  assumes "gps_process_buffer tc s = Some (r, ev, s')"
  shows "track_status tc (Poll # xs) (lk, s) =
     track_status tc xs (case accepted_status (snd s) of Some b \<Rightarrow> b | None \<Rightarrow> lk, s')"
  using assms by (cases s; cases s') simp

lemma lock_schedule_run:
  "track_status id lock_schedule (False, globals_init, statics_init)
      = Some (False, unlocked_receiver)"
proof -
  have w1: "gps_process_buffer id status_input \<noteq> None" by code_simp
  have w2: "accepted_status (snd status_input) = Some True" by code_simp
  have w3: "gps_process_buffer id unlocked_input \<noteq> None" by code_simp
  have w4: "accepted_status (snd unlocked_input) = Some False" by code_simp
  from w1 obtain r ev where p1: "gps_process_buffer id status_input = Some (r, ev, status_decoded)"
    by (auto simp: status_decoded_def)
  from w3 obtain r' ev' where
    p2: "gps_process_buffer id unlocked_input = Some (r', ev', unlocked_decoded)"
    by (auto simp: unlocked_decoded_def)
  have "track_status id lock_schedule (False, globals_init, statics_init)
      = track_status id ([Poll] @ map Receive status_unlocked @ [Poll] @ map Receive time_sentence)
          (False, status_input)"
    unfolding lock_schedule_def status_input_def by (rule track_status_receive)
  also have "\<dots> = track_status id (map Receive status_unlocked @ [Poll] @ map Receive time_sentence)
          (True, status_decoded)"
    using track_status_poll [OF p1] w2 by simp
  also have "\<dots> = track_status id ([Poll] @ map Receive time_sentence) (True, unlocked_input)"
    unfolding unlocked_input_def by (rule track_status_receive)
  also have "\<dots> = track_status id (map Receive time_sentence @ []) (False, unlocked_decoded)"
    using track_status_poll [OF p2] w4 by simp
  also have "\<dots> = track_status id [] (False, unlocked_receiver)"
    unfolding unlocked_receiver_def by (rule track_status_receive)
  finally show ?thesis by simp
qed

text \<open>
  C10. After any interleaving of receive interrupts and calls of \<^verbatim>\<open>gps_process_buffer\<close>
  from startup, \<^verbatim>\<open>gps_magellan_locked\<close> is the value decoded from the most recently accepted
  status sentence, false if there was none, and a timestamp that the next call publishes
  from a time sentence carries that value (the last two parts of the statement). Call by
  call: a call that completes a status sentence passing the line-feed and checksum tests
  returns, leaves the globals alone, publishes nothing and leaves the flag equal to the
  value decoded from that sentence (byte 13 is 6), whatever the flag was before; the result
  tells whether the flag changed. A call that completes a time sentence passing both tests
  returns whenever the epoch correction does, and the timestamp it publishes through
  \<^verbatim>\<open>set_time\<close> carries the flag as it was when the call began, not a byte of the sentence;
  the flag stays. A call that cannot complete the sentence yet returns \<^verbatim>\<open>FALSE\<close> and keeps
  the flag. For every call that returns: a timestamp published from a time sentence carries
  the flag held at the start of the call, and the flag differs afterwards only if the call
  accepted a status sentence, whose decoded value it then holds. The receive interrupt does
  not touch the flag, and at startup it is false.
\<close>

theorem magellan_locked_flag:
  "(gps_input_read p \<noteq> gps_input_write p
    \<and> sync_loop (gps_input_write p) ([], p) = (ev1, p1)
    \<and> gps_packet_type p1 = MAGELLAN_STATUS_PACKET
    \<and> sentence_due p1 (gps_input_write p)
    \<and> s = pending_sentence p1 (gps_input_write p)
    \<and> m = unat (gps_magellan_length p1)
    \<and> magellan_valid s m \<longrightarrow>
      (\<exists>q. gps_process_buffer tc (g, p) =
              Some (gps_magellan_locked p \<noteq> (s 13 = 6), ev1, g, q)
          \<and> gps_magellan_locked q = (s 13 = 6)
          \<and> gps_packet_type q = UNKNOWN_PACKET \<and> gps_packet_length q = 0))
 \<and> (gps_input_read p \<noteq> gps_input_write p
    \<and> sync_loop (gps_input_write p) ([], p) = (ev1, p1)
    \<and> gps_packet_type p1 = MAGELLAN_TIME_PACKET
    \<and> sentence_due p1 (gps_input_write p)
    \<and> s = pending_sentence p1 (gps_input_write p)
    \<and> m = unat (gps_magellan_length p1)
    \<and> magellan_valid s m
    \<and> epoch_correction (s 7) (s 8) (raw_year (s 9) (s 10)) = Some date
    \<and> ts = magellan_timestamp s date (gps_magellan_locked p) \<longrightarrow>
      (\<exists>q. gps_process_buffer tc (g, p) =
              Some (True, ev1 @ fst (set_time tc ts g), snd (set_time tc ts g), q)
          \<and> gps_magellan_locked q = gps_magellan_locked p
          \<and> gps_packet_type q = UNKNOWN_PACKET \<and> gps_packet_length q = 0)
      \<and> Send_timestamp \<in> set (fst (set_time tc ts g))
      \<and> gps_last_timestamp (snd (set_time tc ts g)) = ts
      \<and> locked ts = gps_magellan_locked p)
 \<and> (gps_input_read p \<noteq> gps_input_write p
    \<and> sync_loop (gps_input_write p) ([], p) = (ev1, p1)
    \<and> gps_packet_type p1 \<in> {MAGELLAN_TIME_PACKET, MAGELLAN_STATUS_PACKET}
    \<and> unat (gps_packet_length p1) < unat (gps_magellan_length p1)
    \<and> length (unread p1 (gps_input_write p))
         < unat (gps_magellan_length p1) - unat (gps_packet_length p1) \<longrightarrow>
      (\<exists>q. gps_process_buffer tc (g, p) = Some (False, ev1, g, q)
          \<and> gps_magellan_locked q = gps_magellan_locked p))
 \<and> (gps_process_buffer tc (g, p) = Some (r, ev, g', p')
    \<and> gps_packet_type (snd (sync_loop (gps_input_write p) ([], p))) = MAGELLAN_TIME_PACKET
    \<and> Send_timestamp \<in> set ev \<longrightarrow>
      locked (gps_last_timestamp g') = gps_magellan_locked p
      \<and> gps_magellan_locked p' = gps_magellan_locked p)
 \<and> (gps_process_buffer tc (g, p) = Some (r, ev, g', p')
    \<and> gps_magellan_locked p' \<noteq> gps_magellan_locked p \<longrightarrow>
      gps_packet_type (snd (sync_loop (gps_input_write p) ([], p))) = MAGELLAN_STATUS_PACKET
      \<and> magellan_valid (gps_packet p') (unat (gps_magellan_length p'))
      \<and> gps_magellan_locked p' = (gps_packet p' 13 = 6)
      \<and> r \<and> g' = g \<and> Send_timestamp \<notin> set ev)
 \<and> gps_magellan_locked (snd (USART1_RX_vect b (g, p))) = gps_magellan_locked p
 \<and> gps_magellan_locked statics_init = False
 \<and> (track_status tc xs (False, g0, statics_init) = Some (lk, g, p) \<longrightarrow>
      gps_magellan_locked p = lk)
 \<and> (track_status tc xs (False, g0, statics_init) = Some (lk, g, p)
    \<and> gps_process_buffer tc (g, p) = Some (r, ev, g', p')
    \<and> gps_packet_type (snd (sync_loop (gps_input_write p) ([], p))) = MAGELLAN_TIME_PACKET
    \<and> Send_timestamp \<in> set ev \<longrightarrow>
      locked (gps_last_timestamp g') = lk)"
proof (intro conjI)
  show "gps_input_read p \<noteq> gps_input_write p
    \<and> sync_loop (gps_input_write p) ([], p) = (ev1, p1)
    \<and> gps_packet_type p1 = MAGELLAN_STATUS_PACKET
    \<and> sentence_due p1 (gps_input_write p)
    \<and> s = pending_sentence p1 (gps_input_write p)
    \<and> m = unat (gps_magellan_length p1)
    \<and> magellan_valid s m \<longrightarrow>
      (\<exists>q. gps_process_buffer tc (g, p) =
              Some (gps_magellan_locked p \<noteq> (s 13 = 6), ev1, g, q)
          \<and> gps_magellan_locked q = (s 13 = 6)
          \<and> gps_packet_type q = UNKNOWN_PACKET \<and> gps_packet_length q = 0)"
    using gps_process_buffer_status [of p ev1 p1 s m tc g] by blast
next
  show "gps_input_read p \<noteq> gps_input_write p
    \<and> sync_loop (gps_input_write p) ([], p) = (ev1, p1)
    \<and> gps_packet_type p1 = MAGELLAN_TIME_PACKET
    \<and> sentence_due p1 (gps_input_write p)
    \<and> s = pending_sentence p1 (gps_input_write p)
    \<and> m = unat (gps_magellan_length p1)
    \<and> magellan_valid s m
    \<and> epoch_correction (s 7) (s 8) (raw_year (s 9) (s 10)) = Some date
    \<and> ts = magellan_timestamp s date (gps_magellan_locked p) \<longrightarrow>
      (\<exists>q. gps_process_buffer tc (g, p) =
              Some (True, ev1 @ fst (set_time tc ts g), snd (set_time tc ts g), q)
          \<and> gps_magellan_locked q = gps_magellan_locked p
          \<and> gps_packet_type q = UNKNOWN_PACKET \<and> gps_packet_length q = 0)
      \<and> Send_timestamp \<in> set (fst (set_time tc ts g))
      \<and> gps_last_timestamp (snd (set_time tc ts g)) = ts
      \<and> locked ts = gps_magellan_locked p"
    using gps_process_buffer_time [of p ev1 p1 s m date ts tc g] set_time_events [of tc ts g]
      magellan_timestamp_fields [of s date "gps_magellan_locked p"]
    by blast
next
  show "gps_input_read p \<noteq> gps_input_write p
    \<and> sync_loop (gps_input_write p) ([], p) = (ev1, p1)
    \<and> gps_packet_type p1 \<in> {MAGELLAN_TIME_PACKET, MAGELLAN_STATUS_PACKET}
    \<and> unat (gps_packet_length p1) < unat (gps_magellan_length p1)
    \<and> length (unread p1 (gps_input_write p))
         < unat (gps_magellan_length p1) - unat (gps_packet_length p1) \<longrightarrow>
      (\<exists>q. gps_process_buffer tc (g, p) = Some (False, ev1, g, q)
          \<and> gps_magellan_locked q = gps_magellan_locked p)"
    using gps_process_buffer_waits [of p ev1 p1 tc g] by blast
next
  show "gps_process_buffer tc (g, p) = Some (r, ev, g', p')
    \<and> gps_packet_type (snd (sync_loop (gps_input_write p) ([], p))) = MAGELLAN_TIME_PACKET
    \<and> Send_timestamp \<in> set ev \<longrightarrow>
      locked (gps_last_timestamp g') = gps_magellan_locked p
      \<and> gps_magellan_locked p' = gps_magellan_locked p"
    using gps_process_buffer_flag [of tc g p r ev g' p'] by blast
next
  show "gps_process_buffer tc (g, p) = Some (r, ev, g', p')
    \<and> gps_magellan_locked p' \<noteq> gps_magellan_locked p \<longrightarrow>
      gps_packet_type (snd (sync_loop (gps_input_write p) ([], p))) = MAGELLAN_STATUS_PACKET
      \<and> magellan_valid (gps_packet p') (unat (gps_magellan_length p'))
      \<and> gps_magellan_locked p' = (gps_packet p' 13 = 6)
      \<and> r \<and> g' = g \<and> Send_timestamp \<notin> set ev"
    using gps_process_buffer_flag [of tc g p r ev g' p'] by blast
next
  show "gps_magellan_locked (snd (USART1_RX_vect b (g, p))) = gps_magellan_locked p"
    by (simp add: USART1_RX_vect_def Let_def)
next
  show "gps_magellan_locked statics_init = False" by (simp add: statics_init_def)
next
  show "track_status tc xs (False, g0, statics_init) = Some (lk, g, p) \<longrightarrow>
      gps_magellan_locked p = lk"
    using track_status_startup [of tc xs g0 lk g p] by blast
next
  show "track_status tc xs (False, g0, statics_init) = Some (lk, g, p)
    \<and> gps_process_buffer tc (g, p) = Some (r, ev, g', p')
    \<and> gps_packet_type (snd (sync_loop (gps_input_write p) ([], p))) = MAGELLAN_TIME_PACKET
    \<and> Send_timestamp \<in> set ev \<longrightarrow>
      locked (gps_last_timestamp g') = lk"
    using track_status_startup [of tc xs g0 lk g p]
      gps_process_buffer_flag [of tc g p r ev g' p']
    by blast
qed

theorem magellan_locked_flag_witness:
  "gps_magellan_locked (snd status_input) = False
   \<and> sentence_due (snd (sync_loop (gps_input_write (snd status_input))
         ([], snd status_input))) (gps_input_write (snd status_input))
   \<and> (\<exists>q. gps_process_buffer id status_input = Some (True, [], fst status_input, q)
          \<and> gps_magellan_locked q = True)
   \<and> gps_magellan_locked (snd unlocked_input) = True
   \<and> sentence_due (snd (sync_loop (gps_input_write (snd unlocked_input))
         ([], snd unlocked_input))) (gps_input_write (snd unlocked_input))
   \<and> (\<exists>q. gps_process_buffer id unlocked_input = Some (True, [], fst unlocked_input, q)
          \<and> gps_magellan_locked q = False)
   \<and> gps_magellan_locked (snd locked_receiver) = True
   \<and> sentence_due (snd (sync_loop (gps_input_write (snd locked_receiver))
         ([], snd locked_receiver))) (gps_input_write (snd locked_receiver))
   \<and> (\<exists>g' q. gps_process_buffer id locked_receiver = Some (True, [Send_timestamp], g', q)
          \<and> gps_last_timestamp g' =
              \<lparr>hours = 12, minutes = 30, seconds = 0, day = 18, month = 8, year = 2011,
               locked = True\<rparr>
          \<and> gps_magellan_locked q = True)
   \<and> gps_magellan_locked (snd partial_input) = True
   \<and> (\<exists>q. gps_process_buffer id partial_input = Some (False, [], fst partial_input, q)
          \<and> gps_magellan_locked q = True)
   \<and> gps_magellan_locked (snd (USART1_RX_vect 0x24 status_decoded)) = True
   \<and> track_status id lock_schedule (False, globals_init, statics_init)
        = Some (False, unlocked_receiver)
   \<and> gps_magellan_locked (snd unlocked_receiver) = False
   \<and> gps_process_buffer id unlocked_receiver \<noteq> None
   \<and> fst (snd (the (gps_process_buffer id unlocked_receiver))) = [Send_timestamp]
   \<and> locked (gps_last_timestamp
        (fst (snd (snd (the (gps_process_buffer id unlocked_receiver)))))) = False"
proof -
  let ?a = "snd status_input" and ?b = "snd unlocked_input"
  let ?c = "snd locked_receiver" and ?d = "snd partial_input"
  let ?wa = "gps_input_write ?a" and ?wb = "gps_input_write ?b"
  let ?wc = "gps_input_write ?c" and ?wd = "gps_input_write ?d"
  let ?pa = "snd (sync_loop ?wa ([], ?a))" and ?pb = "snd (sync_loop ?wb ([], ?b))"
  let ?pc = "snd (sync_loop ?wc ([], ?c))" and ?pd = "snd (sync_loop ?wd ([], ?d))"
  let ?sa = "pending_sentence ?pa ?wa" and ?sb = "pending_sentence ?pb ?wb"
  let ?sc = "pending_sentence ?pc ?wc"
  let ?ts = "magellan_timestamp ?sc (18, 8, 2011) True"
  have la: "gps_magellan_locked ?a = False" by code_simp
  have nea: "gps_input_read ?a \<noteq> ?wa" by code_simp
  have eva: "fst (sync_loop ?wa ([], ?a)) = []" by code_simp
  have tya: "gps_packet_type ?pa = MAGELLAN_STATUS_PACKET" by code_simp
  have duea: "sentence_due ?pa ?wa" by code_simp
  have ma: "unat (gps_magellan_length ?pa) = 16" by code_simp
  have oka: "magellan_valid ?sa 16" by code_simp
  have fa: "?sa 13 = 6" by code_simp
  have lb: "gps_magellan_locked ?b = True" by code_simp
  have neb: "gps_input_read ?b \<noteq> ?wb" by code_simp
  have evb: "fst (sync_loop ?wb ([], ?b)) = []" by code_simp
  have tyb: "gps_packet_type ?pb = MAGELLAN_STATUS_PACKET" by code_simp
  have dueb: "sentence_due ?pb ?wb" by code_simp
  have mb: "unat (gps_magellan_length ?pb) = 16" by code_simp
  have okb: "magellan_valid ?sb 16" by code_simp
  have fb: "?sb 13 = 0" by code_simp
  have lc: "gps_magellan_locked ?c = True" by code_simp
  have nec: "gps_input_read ?c \<noteq> ?wc" by code_simp
  have evc: "fst (sync_loop ?wc ([], ?c)) = []" by code_simp
  have tyc: "gps_packet_type ?pc = MAGELLAN_TIME_PACKET" by code_simp
  have duec: "sentence_due ?pc ?wc" by code_simp
  have mc: "unat (gps_magellan_length ?pc) = 13" by code_simp
  have okc: "magellan_valid ?sc 13" by code_simp
  have date: "epoch_correction (?sc 7) (?sc 8) (raw_year (?sc 9) (?sc 10)) = Some (18, 8, 2011)"
    by code_simp
  have fc: "?sc 4 = 12" "?sc 5 = 30" "?sc 6 = 0" by code_simp+
  have evs: "fst (set_time id ?ts (fst locked_receiver)) = [Send_timestamp]" by code_simp
  have ld: "gps_magellan_locked ?d = True" by code_simp
  have ned: "gps_input_read ?d \<noteq> ?wd" by code_simp
  have evd: "fst (sync_loop ?wd ([], ?d)) = []" by code_simp
  have tyd: "gps_packet_type ?pd = MAGELLAN_STATUS_PACKET" by code_simp
  have kd: "unat (gps_packet_length ?pd) < unat (gps_magellan_length ?pd)" by code_simp
  have fewd: "length (unread ?pd ?wd)
      < unat (gps_magellan_length ?pd) - unat (gps_packet_length ?pd)" by code_simp
  have lr: "gps_magellan_locked (snd status_decoded) = True" by code_simp
  have synca: "sync_loop ?wa ([], ?a) = ([], ?pa)" using eva by (simp add: prod_eq_iff)
  have syncb: "sync_loop ?wb ([], ?b) = ([], ?pb)" using evb by (simp add: prod_eq_iff)
  have syncc: "sync_loop ?wc ([], ?c) = ([], ?pc)" using evc by (simp add: prod_eq_iff)
  have syncd: "sync_loop ?wd ([], ?d) = ([], ?pd)" using evd by (simp add: prod_eq_iff)
  from magellan_locked_flag [of ?a "[]" ?pa ?sa 16 id "fst status_input", THEN conjunct1]
       la nea synca tya duea ma oka fa
  have a: "\<exists>q. gps_process_buffer id status_input = Some (True, [], fst status_input, q)
          \<and> gps_magellan_locked q = True"
    by auto
  from magellan_locked_flag [of ?b "[]" ?pb ?sb 16 id "fst unlocked_input", THEN conjunct1]
       lb neb syncb tyb dueb mb okb fb
  have b: "\<exists>q. gps_process_buffer id unlocked_input = Some (True, [], fst unlocked_input, q)
          \<and> gps_magellan_locked q = False"
    by auto
  have ts: "?ts = \<lparr>hours = 12, minutes = 30, seconds = 0, day = 18, month = 8, year = 2011,
               locked = True\<rparr>"
    using fc by (simp add: magellan_timestamp_def)
  from magellan_locked_flag
         [of ?c "[]" ?pc ?sc 13 id "fst locked_receiver" "(18, 8, 2011)" ?ts,
          THEN conjunct2, THEN conjunct1]
       nec syncc tyc duec mc okc date lc
  have "(\<exists>q. gps_process_buffer id locked_receiver =
              Some (True, fst (set_time id ?ts (fst locked_receiver)),
                    snd (set_time id ?ts (fst locked_receiver)), q)
          \<and> gps_magellan_locked q = True)
      \<and> gps_last_timestamp (snd (set_time id ?ts (fst locked_receiver))) = ?ts"
    by auto
  then have c: "\<exists>g' q. gps_process_buffer id locked_receiver =
            Some (True, [Send_timestamp], g', q)
          \<and> gps_last_timestamp g' =
              \<lparr>hours = 12, minutes = 30, seconds = 0, day = 18, month = 8, year = 2011,
               locked = True\<rparr>
          \<and> gps_magellan_locked q = True"
    unfolding evs unfolding ts by blast
  from magellan_locked_flag [of ?d "[]" ?pd _ _ id "fst partial_input",
         THEN conjunct2, THEN conjunct2, THEN conjunct1]
       ld ned syncd tyd kd fewd
  have d: "\<exists>q. gps_process_buffer id partial_input = Some (False, [], fst partial_input, q)
          \<and> gps_magellan_locked q = True"
    by auto
  from magellan_locked_flag
         [where p = "snd status_decoded" and g = "fst status_decoded" and b = "0x24",
          THEN conjunct2, THEN conjunct2, THEN conjunct2, THEN conjunct2, THEN conjunct2,
          THEN conjunct1] lr
  have e: "gps_magellan_locked (snd (USART1_RX_vect 0x24 status_decoded)) = True"
    by simp
  from c obtain g' q where
    run: "gps_process_buffer id (fst locked_receiver, ?c) = Some (True, [Send_timestamp], g', q)"
    by auto
  from magellan_locked_flag
         [where p = ?c and g = "fst locked_receiver" and tc = id and r = True
            and ev = "[Send_timestamp]" and g' = g' and p' = q,
          THEN conjunct2, THEN conjunct2, THEN conjunct2, THEN conjunct1] run tyc lc
  have f: "gps_magellan_locked q = True" by simp
  from a obtain q' where
    run': "gps_process_buffer id (fst status_input, ?a) = Some (True, [], fst status_input, q')"
    and "gps_magellan_locked q' = True"
    by auto
  with magellan_locked_flag
         [where p = ?a and g = "fst status_input" and tc = id and r = True
            and ev = "[]" and g' = "fst status_input" and p' = q',
          THEN conjunct2, THEN conjunct2, THEN conjunct2, THEN conjunct2, THEN conjunct1] la
  have h: "gps_packet q' 13 = 6" by simp
  let ?u = "unlocked_receiver"
  let ?res = "the (gps_process_buffer id ?u)"
  have pub: "gps_process_buffer id ?u \<noteq> None" by code_simp
  have evt: "fst (snd ?res) = [Send_timestamp]" by code_simp
  have tyt: "gps_packet_type (snd (sync_loop (gps_input_write (snd ?u)) ([], snd ?u)))
      = MAGELLAN_TIME_PACKET" by code_simp
  have tracked: "track_status id lock_schedule (False, globals_init, statics_init)
      = Some (False, fst ?u, snd ?u)"
    using lock_schedule_run by simp
  from pub have polled: "gps_process_buffer id (fst ?u, snd ?u)
      = Some (fst ?res, fst (snd ?res), fst (snd (snd ?res)), snd (snd (snd ?res)))"
    by auto
  from magellan_locked_flag
         [where tc = id and xs = lock_schedule and ?g0.0 = globals_init and lk = False
            and g = "fst ?u" and p = "snd ?u",
          THEN conjunct2, THEN conjunct2, THEN conjunct2, THEN conjunct2, THEN conjunct2,
          THEN conjunct2, THEN conjunct2, THEN conjunct1] tracked
  have t1: "gps_magellan_locked (snd ?u) = False" by simp
  from magellan_locked_flag
         [where tc = id and xs = lock_schedule and ?g0.0 = globals_init and lk = False
            and g = "fst ?u" and p = "snd ?u" and r = "fst ?res"
            and ev = "fst (snd ?res)" and g' = "fst (snd (snd ?res))"
            and p' = "snd (snd (snd ?res))",
          THEN conjunct2, THEN conjunct2, THEN conjunct2, THEN conjunct2, THEN conjunct2,
          THEN conjunct2, THEN conjunct2, THEN conjunct2] tracked polled tyt evt
  have t2: "locked (gps_last_timestamp (fst (snd (snd ?res)))) = False" by simp
  from la duea a lb dueb b lc duec c ld d e lock_schedule_run t1 pub evt t2
  show ?thesis by blast
qed

section \<open>The Trimble decoder across calls\<close>

lemma destuff_doubled: "destuff False (DLE # DLE # zs) = DLE # destuff False zs"
  by (cases zs) simp_all

lemma destuff_stuff: "destuff False (stuff xs @ zs) = xs @ destuff False zs"
proof (induction xs)
  case Nil
  then show ?case by (simp add: stuff_def)
next
  case (Cons x xs)
  show ?case
  proof (cases "x = DLE")
    case True
    then have "stuff (x # xs) @ zs = DLE # DLE # (stuff xs @ zs)"
      by (simp add: stuff_def)
    then have "destuff False (stuff (x # xs) @ zs) = DLE # destuff False (stuff xs @ zs)"
      by (simp only: destuff_doubled)
    then show ?thesis using True Cons.IH by simp
  next
    case False
    then have "stuff (x # xs) @ zs = x # (stuff xs @ zs)"
      by (simp add: stuff_def)
    then show ?thesis using False Cons.IH by simp
  qed
qed

lemma destuff_frame:
  "destuff False (trimble_frame payload @ zs)
     = [DLE, 0x8F, 0xAB] @ payload @ [DLE, ETX] @ destuff False zs"
proof -
  have "destuff False (trimble_frame payload @ zs)
      = DLE # 0x8F # 0xAB # destuff False (stuff payload @ ([DLE, ETX] @ zs))"
    by (simp add: trimble_frame_def DLE_def)
  also have "destuff False (stuff payload @ ([DLE, ETX] @ zs))
      = payload @ destuff False ([DLE, ETX] @ zs)"
    by (rule destuff_stuff)
  also have "destuff False ([DLE, ETX] @ zs) = DLE # ETX # destuff False zs"
    by (simp add: DLE_def ETX_def)
  finally show ?thesis by simp
qed

text \<open>
  One pass of the Trimble loop, read off the unread bytes: if the run stores anything at
  all, the pass reaches the store, and what it stores is the head of the destuffed list.
\<close>

lemma trimble_head:
  assumes "destuff (gps_input_buffer p (gps_input_read p - 1) = DLE) (unread p tw) \<noteq> []"
  shows "gps_input_read p \<noteq> tw \<and> gps_input_read (skip_padding p) \<noteq> tw
    \<and> destuff (gps_input_buffer p (gps_input_read p - 1) = DLE) (unread p tw)
        = gps_input_buffer p (gps_input_read (skip_padding p))
          # destuff (gps_input_buffer p (gps_input_read (skip_padding p)) = DLE)
              (unread (p\<lparr>gps_input_read := gps_input_read (skip_padding p) + 1\<rparr>) tw)"
proof -
  let ?r = "gps_input_read p"
  let ?d = "gps_input_buffer p (?r - 1) = DLE"
  have ne: "?r \<noteq> tw" using assms by (auto simp: unread_Nil)
  then have u: "unread p tw = gps_input_buffer p ?r # unread (p\<lparr>gps_input_read := ?r + 1\<rparr>) tw"
    by (rule unread_Cons)
  show ?thesis
  proof (cases "gps_input_buffer p ?r = DLE \<and> ?d")
    case True
    then have sk: "skip_padding p = p\<lparr>gps_input_read := ?r + 1\<rparr>"
      by (simp add: skip_padding_def)
    have ne1: "?r + 1 \<noteq> tw"
    proof
      assume "?r + 1 = tw"
      then have "unread (p\<lparr>gps_input_read := ?r + 1\<rparr>) tw = []" by (simp add: unread_Nil)
      with u True assms show False by simp
    qed
    then have "unread (p\<lparr>gps_input_read := ?r + 1\<rparr>) tw
        = gps_input_buffer p (?r + 1) # unread (p\<lparr>gps_input_read := ?r + 1 + 1\<rparr>) tw"
      using unread_Cons [of "p\<lparr>gps_input_read := ?r + 1\<rparr>" tw] by simp
    with u True ne ne1 sk show ?thesis by simp
  next
    case False
    then have "skip_padding p = p" by (simp add: skip_padding_def)
    with u False ne show ?thesis by auto
  qed
qed

lemma trimble_loop_completes:
  "unat (gps_packet_length (snd s)) = k \<Longrightarrow> k < 21 \<Longrightarrow>
   21 - k \<le> length (destuff (gps_input_buffer (snd s) (gps_input_read (snd s) - 1) = DLE)
                      (unread (snd s) tw)) \<Longrightarrow>
   \<exists>q. trimble_loop tc tw s = trimble_packet_end tc (fst s, q)
      \<and> (\<forall>i<21. gps_packet q i =
            fill (gps_packet (snd s)) k
              (destuff (gps_input_buffer (snd s) (gps_input_read (snd s) - 1) = DLE)
                 (unread (snd s) tw)) i)"
proof (induction tc tw s arbitrary: k rule: trimble_loop.induct)
  case (1 tc tw g p)
  let ?buf = "gps_input_buffer p"
  let ?bs = "destuff (?buf (gps_input_read p - 1) = DLE) (unread p tw)"
  let ?p1 = "skip_padding p"
  let ?y = "?buf (gps_input_read ?p1)"
  let ?p2 = "store_byte ?p1"
  let ?p3 = "?p2\<lparr>gps_input_read := gps_input_read ?p2 + 1\<rparr>"
  let ?bs' = "destuff (?y = DLE) (unread (p\<lparr>gps_input_read := gps_input_read ?p1 + 1\<rparr>) tw)"
  from "1.prems" have "?bs \<noteq> []" by auto
  from trimble_head [OF this] have ne: "gps_input_read p \<noteq> tw"
    and ne1: "gps_input_read ?p1 \<noteq> tw" and bs: "?bs = ?y # ?bs'"
    by simp_all
  have p1: "gps_input_buffer ?p1 = ?buf" "gps_packet ?p1 = gps_packet p"
    "gps_packet_length ?p1 = gps_packet_length p"
    by (simp_all add: skip_padding_def)
  from "1.prems" have len: "gps_packet_length p = of_nat k"
    by (metis of_nat_unat ucast_id snd_conv)
  have p2: "gps_packet ?p2 = (gps_packet p)(k := ?y)"
    "gps_packet_length ?p2 = of_nat (Suc k)"
    "gps_input_buffer ?p2 = ?buf" "gps_input_read ?p2 = gps_input_read ?p1"
    using "1.prems"(1) p1 len by (simp_all add: store_byte_def)
  have k1: "unat (of_nat (Suc k) :: u8) = Suc k"
    using "1.prems"(2) by (simp add: unat_of_nat del: of_nat_Suc)
  have unfold: "trimble_loop tc tw (g, p) =
      (if gps_packet_length ?p2 = 21 then trimble_packet_end tc (g, ?p2)
       else trimble_loop tc tw (g, ?p3))"
    using ne ne1 by (simp add: trimble_loop.simps [of tc tw g p] Let_def)
  show ?case
  proof (cases "gps_packet_length ?p2 = 21")
    case True
    then have "unat (of_nat (Suc k) :: u8) = 21" using p2(2) by simp
    then have "Suc k = 21" using k1 by simp
    then have "\<forall>i<21. gps_packet ?p2 i = fill (gps_packet p) k ?bs i"
      unfolding p2(1) bs using fill_last [of _ k "gps_packet p" ?y ?bs'] by simp
    with True unfold show ?thesis by auto
  next
    case False
    have k21: "Suc k < 21"
    proof (rule ccontr)
      assume "\<not> Suc k < 21"
      with "1.prems"(2) have "Suc k = 21" by simp
      then have "gps_packet_length ?p2 = 21" using p2(2) by simp
      with False show False by simp
    qed
    have p3: "unat (gps_packet_length (snd (g, ?p3))) = Suc k"
      using p2(2) k1 by simp
    have bs3: "destuff (gps_input_buffer (snd (g, ?p3)) (gps_input_read (snd (g, ?p3)) - 1) = DLE)
                 (unread (snd (g, ?p3)) tw) = ?bs'"
      using p2 by (simp add: unread_def)
    from "1.prems"(3) bs have "21 - Suc k \<le> length ?bs'" by simp
    with bs3 have "21 - Suc k \<le> length (destuff
           (gps_input_buffer (snd (g, ?p3)) (gps_input_read (snd (g, ?p3)) - 1) = DLE)
           (unread (snd (g, ?p3)) tw))" by simp
    from "1.IH" [OF ne refl ne1 refl False p3 k21 this] obtain q where
      q: "trimble_loop tc tw (g, ?p3) = trimble_packet_end tc (g, q)"
      and pk: "\<forall>i<21. gps_packet q i = fill (gps_packet ?p3) (Suc k) ?bs' i"
      unfolding bs3 by auto
    from pk have "\<forall>i<21. gps_packet q i = fill (gps_packet p) k ?bs i"
      unfolding bs using p2(1) by (simp add: fill_Cons)
    with q unfold False show ?thesis by auto
  qed
qed

lemma raw_year_or: "raw_year hi lo = push_bit 8 (ucast hi) OR ucast lo"
proof -
  have m1: "(0xFF00 :: u16) = push_bit 8 (mask 8)"
    by (simp add: mask_eq_exp_minus_1 push_bit_eq_mult)
  have m2: "(0x00FF :: u16) = mask 8" by (simp add: mask_eq_exp_minus_1)
  show ?thesis
    unfolding raw_year_def m1 m2
    by (rule bit_word_eqI) (auto simp: bit_simps dest: bit_imp_le_length)
qed

lemma raw_year_big_endian: "unat (raw_year hi lo) = 256 * unat hi + unat lo"
proof -
  have hi: "unat hi < 256" and lo: "unat lo < 256"
    using unsigned_less [of hi, where 'a = nat] unsigned_less [of lo, where 'a = nat] by simp_all
  have uh: "unat (ucast hi :: u16) = unat hi" and ul: "unat (ucast lo :: u16) = unat lo"
    using hi lo by (simp_all add: unsigned_ucast_eq take_bit_nat_eq_self)
  have "push_bit 8 (ucast hi :: u16) = ucast hi * 256" by (simp add: push_bit_eq_mult)
  moreover have "unat ((ucast hi :: u16) * 256) = unat (ucast hi :: u16) * unat (256 :: u16)"
    using hi uh by (intro iffD1 [OF unat_mult_lem]) simp
  ultimately have ph: "unat (push_bit 8 (ucast hi :: u16)) = 256 * unat hi"
    using uh by simp
  have "raw_year hi lo = push_bit 8 (ucast hi) + ucast lo"
    unfolding raw_year_or
    by (rule disjunctive_add [symmetric]) (auto simp: bit_simps dest: bit_imp_le_length)
  moreover have "unat (push_bit 8 (ucast hi :: u16) + ucast lo)
      = unat (push_bit 8 (ucast hi :: u16)) + unat (ucast lo :: u16)"
    using hi lo ph ul by (intro iffD1 [OF unat_add_lem]) simp
  ultimately show ?thesis using ph ul by simp
qed

text \<open>
  Whenever the Trimble loop returns \<^verbatim>\<open>TRUE\<close>, that is, whenever it has completed a packet,
  accepted or rejected, the accumulator is empty afterwards.
\<close>

lemma trimble_loop_resets:
  "trimble_loop tc tw s = (True, ev, g', p') \<Longrightarrow>
     gps_packet_type p' = UNKNOWN_PACKET \<and> gps_packet_length p' = 0"
proof (induction tc tw s rule: trimble_loop.induct)
  case (1 tc tw g p)
  let ?p1 = "skip_padding p"
  let ?p2 = "store_byte ?p1"
  let ?p3 = "?p2\<lparr>gps_input_read := gps_input_read ?p2 + 1\<rparr>"
  show ?case
  proof (cases "gps_input_read p \<noteq> tw \<and> gps_input_read ?p1 \<noteq> tw")
    case False
    with "1.prems" show ?thesis
      by (auto simp: trimble_loop.simps [of tc tw g p] Let_def split: if_splits)
  next
    case more: True
    show ?thesis
    proof (cases "gps_packet_length ?p2 = 21")
      case True
      with more "1.prems" have "trimble_packet_end tc (g, ?p2) = (True, ev, g', p')"
        by (simp add: trimble_loop.simps [of tc tw g p] Let_def)
      then have "p' = reset_packet ?p2"
        by (auto simp: trimble_packet_end_def split: if_splits prod.splits)
      then show ?thesis by (simp add: reset_packet_def)
    next
      case False
      with more "1.prems" have "trimble_loop tc tw (g, ?p3) = (True, ev, g', p')"
        by (simp add: trimble_loop.simps [of tc tw g p] Let_def)
      from "1.IH" [OF _ refl _ refl False this] more show ?thesis by simp
    qed
  qed
qed

lemma unread_head:
  assumes "unread p tw = a # zs"
  shows "gps_input_read p \<noteq> tw \<and> gps_input_buffer p (gps_input_read p) = a
    \<and> unread (p\<lparr>gps_input_read := gps_input_read p + 1\<rparr>) tw = zs"
proof -
  have ne: "gps_input_read p \<noteq> tw" using assms by (auto simp: unread_Nil)
  from unread_Cons [OF ne] assms show ?thesis using ne by simp
qed

text \<open>
  The Trimble loop on a whole frame: entered with an empty accumulator at the start of a
  frame that is wholly unread, it completes the packet and publishes the fields of the
  payload.
\<close>

lemma trimble_loop_decodes_frame:
  assumes len: "gps_packet_length p = 0"
    and prev: "gps_input_buffer p (gps_input_read p - 1) \<noteq> DLE"
    and line: "unread p tw = trimble_frame payload @ rest"
    and pl: "length payload = 16"
  shows "\<exists>ev g' p'. trimble_loop tc tw (g, p) = (True, ev, g', p')
     \<and> Send_timestamp \<in> set ev
     \<and> gps_last_timestamp g' =
         \<lparr>hours = payload ! 11, minutes = payload ! 10, seconds = payload ! 9,
          day = payload ! 12, month = payload ! 13,
          year = raw_year (payload ! 14) (payload ! 15), locked = (payload ! 8 = 3)\<rparr>
     \<and> gps_packet_type p' = UNKNOWN_PACKET \<and> gps_packet_length p' = 0"
proof -
  let ?bs = "[DLE, 0x8F, 0xAB] @ payload @ [DLE, ETX] @ destuff False rest"
  have bs: "destuff (gps_input_buffer p (gps_input_read p - 1) = DLE) (unread p tw) = ?bs"
    using prev line by (simp only: destuff_frame)
  from len have k: "unat (gps_packet_length (snd (g, p))) = 0" by simp
  have "21 - 0 \<le> length (destuff (gps_input_buffer (snd (g, p))
          (gps_input_read (snd (g, p)) - 1) = DLE) (unread (snd (g, p)) tw))"
    using bs pl by simp
  from trimble_loop_completes [OF k _ this, of tc] obtain q where
    q: "trimble_loop tc tw (g, p) = trimble_packet_end tc (g, q)"
    and pk: "\<forall>i<21. gps_packet q i = fill (gps_packet p) 0 ?bs i"
    using bs by auto
  have at: "gps_packet q i = ?bs ! i" if "i < 21" for i
    using pk that pl by (simp add: fill_def)
  have tail: "gps_packet q 19 = DLE" "gps_packet q 20 = ETX"
    using at [of 19] at [of 20] pl by (simp_all add: nth_append)
  have fields: "gps_packet q 11 = payload ! 8" "gps_packet q 12 = payload ! 9"
    "gps_packet q 13 = payload ! 10" "gps_packet q 14 = payload ! 11"
    "gps_packet q 15 = payload ! 12" "gps_packet q 16 = payload ! 13"
    "gps_packet q 17 = payload ! 14" "gps_packet q 18 = payload ! 15"
    using at [of 11] at [of 12] at [of 13] at [of 14] at [of 15] at [of 16] at [of 17]
      at [of 18] pl
    by (simp_all add: nth_append nth_Cons')
  let ?t = "trimble_timestamp (gps_packet q)"
  have t: "?t = \<lparr>hours = payload ! 11, minutes = payload ! 10, seconds = payload ! 9,
          day = payload ! 12, month = payload ! 13,
          year = raw_year (payload ! 14) (payload ! 15), locked = (payload ! 8 = 3)\<rparr>"
    by (simp add: trimble_timestamp_def fields)
  have "trimble_packet_end tc (g, q) =
      (True, fst (set_time tc ?t g), snd (set_time tc ?t g), reset_packet q)"
    using tail by (simp add: trimble_packet_end_def split: prod.splits)
  with q have "trimble_loop tc tw (g, p) =
      (True, fst (set_time tc ?t g), snd (set_time tc ?t g), reset_packet q)"
    by simp
  moreover have "Send_timestamp \<in> set (fst (set_time tc ?t g))"
    and "gps_last_timestamp (snd (set_time tc ?t g)) = ?t"
    using set_time_events [of tc ?t g] by simp_all
  ultimately show ?thesis using t by (simp add: reset_packet_def)
qed

text \<open>
  The synchroniser in front of a frame. After a completed packet the read cursor rests on
  the \<^verbatim>\<open>ETX\<close> of its terminator; the scan passes that byte and the first two bytes of the
  frame, recognises the preamble at the third and rewinds to the start of the frame, with
  three more bytes counted as skipped.
\<close>

lemma sync_loop_pass:
  assumes "gps_packet_type p = UNKNOWN_PACKET" and "gps_input_read p \<noteq> tw"
    and "gps_input_buffer p (gps_input_read p - 1) \<noteq> 0x24"
    and "gps_input_buffer p (gps_input_read p) \<noteq> 0xAB"
  shows "sync_loop tw (ev, p) = sync_loop tw (ev, sync_next p)"
  using assms
  by (simp add: sync_loop.simps [of tw ev p] magellan_preamble_def trimble_preamble_def)

lemma sync_loop_finds_frame:
  assumes ty: "gps_packet_type p = UNKNOWN_PACKET"
    and prev: "gps_input_buffer p (gps_input_read p - 1) = DLE"
    and line: "unread p tw = ETX # trimble_frame payload @ rest"
  shows "sync_loop tw (ev, p) =
           (ev, p\<lparr>gps_input_read := gps_input_read p + 1,
                  bytes_to_sync := bytes_to_sync p + 3,
                  gps_packet_type := TRIMBLE_PACKET\<rparr>)"
proof -
  let ?r = "gps_input_read p" and ?buf = "gps_input_buffer p"
  let ?p1 = "p\<lparr>gps_input_read := ?r + 1\<rparr>"
  let ?p2 = "p\<lparr>gps_input_read := ?r + 1 + 1\<rparr>"
  let ?p3 = "p\<lparr>gps_input_read := ?r + 1 + 1 + 1\<rparr>"
  have fr: "trimble_frame payload @ rest = DLE # 0x8F # 0xAB # (stuff payload @ [DLE, ETX] @ rest)"
    by (simp add: trimble_frame_def)
  from unread_head [OF line] have r0: "?r \<noteq> tw" and b0: "?buf ?r = ETX"
    and l1: "unread ?p1 tw = DLE # 0x8F # 0xAB # (stuff payload @ [DLE, ETX] @ rest)"
    using fr by simp_all
  from unread_head [OF l1] have r1: "?r + 1 \<noteq> tw" and b1: "?buf (?r + 1) = DLE"
    and l2: "unread ?p2 tw = 0x8F # 0xAB # (stuff payload @ [DLE, ETX] @ rest)"
    by simp_all
  from unread_head [OF l2] have r2: "?r + 1 + 1 \<noteq> tw" and b2: "?buf (?r + 1 + 1) = 0x8F"
    and l3: "unread ?p3 tw = 0xAB # (stuff payload @ [DLE, ETX] @ rest)"
    by simp_all
  from unread_head [OF l3] have r3: "?r + 1 + 1 + 1 \<noteq> tw" and b3: "?buf (?r + 1 + 1 + 1) = 0xAB"
    by simp_all
  have c: "?r + 1 = 1 + ?r" "?r + 1 + 1 = 2 + ?r" "?r + 1 + 1 + 1 = 3 + ?r" by simp_all
  note r1 = r1 r1 [unfolded c] and r2 = r2 r2 [unfolded c] and r3 = r3 r3 [unfolded c]
    and b1 = b1 b1 [unfolded c] and b2 = b2 b2 [unfolded c] and b3 = b3 b3 [unfolded c]
  let ?q1 = "sync_next p"
  let ?q2 = "sync_next ?q1"
  let ?q3 = "sync_next ?q2"
  have s1: "sync_loop tw (ev, p) = sync_loop tw (ev, ?q1)"
    using ty r0 prev b0 by (intro sync_loop_pass) (simp_all add: DLE_def ETX_def)
  have s2: "sync_loop tw (ev, ?q1) = sync_loop tw (ev, ?q2)"
    using ty r1 b0 b1 by (intro sync_loop_pass) (simp_all add: sync_next_def DLE_def ETX_def)
  have s3: "sync_loop tw (ev, ?q2) = sync_loop tw (ev, ?q3)"
    using ty r2 b1 b2 by (intro sync_loop_pass) (simp_all add: sync_next_def DLE_def ETX_def)
  have m: "\<not> magellan_preamble ?q3" "trimble_preamble ?q3"
    using b0 b1 b2 b3 prev
    by (simp_all add: magellan_preamble_def trimble_preamble_def sync_next_def DLE_def ETX_def)
  have "sync_loop tw (ev, ?q3) =
      (ev, ?q3\<lparr>gps_packet_type := TRIMBLE_PACKET, gps_input_read := gps_input_read ?q3 - 2\<rparr>)"
  proof -
    have q3: "gps_packet_type ?q3 = UNKNOWN_PACKET" "gps_input_read ?q3 \<noteq> tw"
      using ty r3 by (simp_all add: sync_next_def)
    show ?thesis by (subst sync_loop.simps) (simp only: q3 m simp_thms if_True if_False)
  qed
  with s1 s2 s3 show ?thesis by (simp add: sync_next_def)
qed

text \<open>
  What does hold of the Trimble decoder. A call of \<^verbatim>\<open>gps_process_buffer\<close> that begins
  where the call for the previous packet ended (cursor on the \<^verbatim>\<open>ETX\<close> of its terminator,
  accumulator empty) and finds the next frame wholly unread returns \<^verbatim>\<open>TRUE\<close> and
  publishes exactly the fields of the payload: seconds, minutes, hours, day and month from
  the payload bytes 9 to 13, the year big-endian from bytes 14 and 15, locked iff byte 8
  is 3; the accumulator is empty afterwards.
\<close>

theorem trimble_frame_in_one_call:
  assumes ty: "gps_packet_type p = UNKNOWN_PACKET" and len: "gps_packet_length p = 0"
    and prev: "gps_input_buffer p (gps_input_read p - 1) = DLE"
    and line: "unread p (gps_input_write p) = ETX # trimble_frame payload @ rest"
    and pl: "length payload = 16"
  shows "\<exists>ev g' p'. gps_process_buffer tc (g, p) = Some (True, ev, g', p')
     \<and> Send_timestamp \<in> set ev
     \<and> gps_last_timestamp g' =
         \<lparr>hours = payload ! 11, minutes = payload ! 10, seconds = payload ! 9,
          day = payload ! 12, month = payload ! 13,
          year = raw_year (payload ! 14) (payload ! 15), locked = (payload ! 8 = 3)\<rparr>
     \<and> unat (year (gps_last_timestamp g')) = 256 * unat (payload ! 14) + unat (payload ! 15)
     \<and> gps_packet_type p' = UNKNOWN_PACKET \<and> gps_packet_length p' = 0"
proof -
  let ?tw = "gps_input_write p"
  let ?p1 = "p\<lparr>gps_input_read := gps_input_read p + 1,
               bytes_to_sync := bytes_to_sync p + 3, gps_packet_type := TRIMBLE_PACKET\<rparr>"
  from unread_head [OF line] have ne: "gps_input_read p \<noteq> ?tw"
    and b0: "gps_input_buffer p (gps_input_read p) = ETX"
    and l1: "unread (p\<lparr>gps_input_read := gps_input_read p + 1\<rparr>) ?tw
               = trimble_frame payload @ rest"
    by simp_all
  have sync: "sync_loop ?tw ([], p) = ([], ?p1)"
    using ty prev line by (rule sync_loop_finds_frame)
  have "unread ?p1 ?tw = trimble_frame payload @ rest"
    using l1 by (simp add: unread_def)
  moreover have "gps_input_buffer ?p1 (gps_input_read ?p1 - 1) \<noteq> DLE"
    using b0 by (simp add: DLE_def ETX_def)
  moreover have "gps_packet_length ?p1 = 0" using len by simp
  ultimately obtain ev g' p' where
    loop: "trimble_loop tc ?tw (g, ?p1) = (True, ev, g', p')"
    and res: "Send_timestamp \<in> set ev"
      "gps_last_timestamp g' =
         \<lparr>hours = payload ! 11, minutes = payload ! 10, seconds = payload ! 9,
          day = payload ! 12, month = payload ! 13,
          year = raw_year (payload ! 14) (payload ! 15), locked = (payload ! 8 = 3)\<rparr>"
      "gps_packet_type p' = UNKNOWN_PACKET" "gps_packet_length p' = 0"
    using trimble_loop_decodes_frame [of ?p1 ?tw payload rest tc g] pl by blast
  from sync loop ne have "gps_process_buffer tc (g, p) = Some (True, ev, g', p')"
    by (simp add: gps_process_buffer_def Let_def)
  with res show ?thesis by (simp add: raw_year_big_endian)
qed


theorem trimble_frame_in_one_call_witness:
  "gps_packet_type (snd next_frame) = UNKNOWN_PACKET
   \<and> gps_packet_length (snd next_frame) = 0
   \<and> gps_input_buffer (snd next_frame) (gps_input_read (snd next_frame) - 1) = DLE
   \<and> unread (snd next_frame) (gps_input_write (snd next_frame))
       = ETX # trimble_frame payload_2064 @ []
   \<and> length payload_2064 = 16
   \<and> (\<exists>ev g' p'. gps_process_buffer id next_frame = Some (True, ev, g', p')
        \<and> gps_last_timestamp g' =
            \<lparr>hours = 12, minutes = 30, seconds = 0, day = 30, month = 10, year = 2064,
             locked = True\<rparr>
        \<and> gps_packet_type p' = UNKNOWN_PACKET \<and> gps_packet_length p' = 0)"
proof -
  have h: "gps_packet_type (snd next_frame) = UNKNOWN_PACKET"
    "gps_packet_length (snd next_frame) = 0"
    "gps_input_buffer (snd next_frame) (gps_input_read (snd next_frame) - 1) = DLE"
    "unread (snd next_frame) (gps_input_write (snd next_frame))
       = ETX # trimble_frame payload_2064 @ []"
    "length payload_2064 = 16"
    by code_simp+
  have y: "raw_year (payload_2064 ! 14) (payload_2064 ! 15) = 2064" by code_simp
  from trimble_frame_in_one_call [OF h, of id "fst next_frame"] obtain ev g' p' where
    "gps_process_buffer id (fst next_frame, snd next_frame) = Some (True, ev, g', p')"
    "gps_last_timestamp g' =
         \<lparr>hours = payload_2064 ! 11, minutes = payload_2064 ! 10, seconds = payload_2064 ! 9,
          day = payload_2064 ! 12, month = payload_2064 ! 13,
          year = raw_year (payload_2064 ! 14) (payload_2064 ! 15),
          locked = (payload_2064 ! 8 = 3)\<rparr>"
    "gps_packet_type p' = UNKNOWN_PACKET" "gps_packet_length p' = 0"
    by blast
  then have "gps_process_buffer id next_frame = Some (True, ev, g', p')
        \<and> gps_last_timestamp g' =
            \<lparr>hours = 12, minutes = 30, seconds = 0, day = 30, month = 10, year = 2064,
             locked = True\<rparr>
        \<and> gps_packet_type p' = UNKNOWN_PACKET \<and> gps_packet_length p' = 0"
    unfolding y by (simp add: payload_2064_def)
  then show ?thesis using h by blast
qed

text \<open>
  C1. The claim holds when the whole frame is unread at one call and fails under the
  normal schedule, one call per received byte: the frame \<open>line_1616\<close>, received in one
  piece, is decoded to 12:16:16 on 30 October 2026, locked; received byte by byte, the
  decoder keeps one of its two framing-byte values only, takes the first byte of the next
  frame as the last byte of this one, logs a bad packet and publishes nothing. The
  accumulator is reset in both runs.
\<close>

theorem trimble_frame_lost_bytewise:
  "map_option (\<lambda>(r, ev, g, p).
       (r, ev, gps_last_timestamp g, gps_packet_type p, gps_packet_length p))
     (gps_process_buffer id (receive line_1616 (globals_init :: 8 globals, statics_init)))
   = Some (True, [Send_timestamp],
       \<lparr>hours = 12, minutes = 16, seconds = 16, day = 30, month = 10, year = 2026,
        locked = True\<rparr>, UNKNOWN_PACKET, 0)
 \<and> map_option (\<lambda>(ev, g, p). (ev, gps_last_timestamp g, gps_packet_type p, gps_packet_length p))
     (serve id (line_1616 @ [DLE]) ([], globals_init :: 8 globals, statics_init))
   = Some ([Debug_string gps_msg_bad_packet,
            Debug_raw [DLE, 0x8F, 0xAB, 0, 0, 0, 0, 0, 0, 0, 0, 3, 16, 12, 30, 10, 0x07, 0xEA,
                       DLE, ETX, DLE]],
           timestamp_zero, UNKNOWN_PACKET, 0)"
  by code_simp

text \<open>
  C3. The padding test looks at the raw byte before the cursor, and a call that ends right
  after a skipped padding byte leaves no trace of the skip. In \<open>line_2064\<close> a doubled framing
  byte is followed by the framing byte of the terminator. With a call after every byte the
  doubled pair straddles a call boundary: the call for its second byte skips it and ends,
  and the next call, at the third framing byte in a row, finds the padding byte before the
  cursor and skips again. The third framing byte is dropped, the packet is one byte short
  and stays unfinished. The same happens when one call sees the line up to the doubled pair
  and the next call sees the terminator. The same bytes in one call give the packet as
  sent.
\<close>

theorem third_framing_byte_dropped:
  "map_option (\<lambda>(ev, g, p). (ev, gps_packet_type p, packet_bytes p))
       (serve id line_2064 ([], globals_init :: 8 globals, statics_init))
     = Some ([], TRIMBLE_PACKET,
         [DLE, 0x8F, 0xAB, 0, 0, 0, 0, 0, 0, 0, 0, 3, 0, 30, 12, 30, 10, 0x08, 0x10, ETX])
 \<and> unread (snd second_part) (gps_input_write (snd second_part)) = [DLE, ETX]
 \<and> gps_input_buffer (snd second_part) (gps_input_read (snd second_part) - 1) = DLE
 \<and> gps_input_buffer (snd second_part) (gps_input_read (snd second_part) - 2) = DLE
 \<and> map_option (\<lambda>(r, ev, g, p). (r, ev, gps_packet_type p, packet_bytes p))
       (gps_process_buffer id second_part)
     = Some (False, [], TRIMBLE_PACKET,
         [DLE, 0x8F, 0xAB, 0, 0, 0, 0, 0, 0, 0, 0, 3, 0, 30, 12, 30, 10, 0x08, 0x10, ETX])
 \<and> map_option (\<lambda>(r, ev, g, p). (r, ev, year (gps_last_timestamp g), gps_packet_type p))
       (gps_process_buffer id (receive line_2064 (globals_init :: 8 globals, statics_init)))
     = Some (True, [Send_timestamp], 2064, UNKNOWN_PACKET)
 \<and> destuff False (drop 2 line_2064)
     = [DLE, 0x8F, 0xAB, 0, 0, 0, 0, 0, 0, 0, 0, 3, 0, 30, 12, 30, 10, 0x08, 0x10, DLE, ETX]"
  by code_simp

end
